theory Spec2Isabelle
  imports Main
begin

section \<open>Python strings\<close>

text \<open>
  A Python \<open>str\<close> is a sequence of Unicode code points, and \<open>len\<close>, indexing, slicing
  and the \<open>re\<close> module all count code points. The Malayalam block (U+0D00..U+0D7F) does
  not fit an 8-bit \<open>char\<close>, so a string is a list of code points.
\<close>

type_synonym ustr = "nat list"

definition ascii :: "string \<Rightarrow> ustr" where
  "ascii s = map of_char s"

text \<open>
  \<open>str.strip()\<close> and the regex class \<open>\s\<close> of a \<open>str\<close> pattern both use CPython's
  \<open>Py_UNICODE_ISSPACE\<close>: U+0009..U+000D, U+001C..U+0020, U+0085, U+00A0, U+1680,
  U+2000..U+200A, U+2028, U+2029, U+202F, U+205F, U+3000.
\<close>

definition isspace :: "nat \<Rightarrow> bool" where
  "isspace c \<longleftrightarrow>
     (9 \<le> c \<and> c \<le> 13) \<or> (28 \<le> c \<and> c \<le> 32) \<or> c = 133 \<or> c = 160 \<or> c = 5760 \<or>
     (8192 \<le> c \<and> c \<le> 8202) \<or> c = 8232 \<or> c = 8233 \<or> c = 8239 \<or> c = 8287 \<or> c = 12288"

definition lstrip :: "ustr \<Rightarrow> ustr" where
  "lstrip s = dropWhile isspace s"

definition rstrip :: "ustr \<Rightarrow> ustr" where
  "rstrip s = rev (dropWhile isspace (rev s))"

definition strip :: "ustr \<Rightarrow> ustr" where
  "strip s = rstrip (lstrip s)"

text \<open>
  The case and digit properties of a code point come from the Unicode character database
  of the interpreter, which is not part of the repository: the functions that consult it
  take it as a parameter. \<open>uc_decimal\<close> is the decimal digit value of a code point of
  category Nd (what \<open>\d\<close> matches and \<open>int\<close> reads).
\<close>

record ucd =
  uc_upper :: "nat \<Rightarrow> bool"
  uc_lower :: "nat \<Rightarrow> bool"
  uc_title :: "nat \<Rightarrow> bool"
  uc_decimal :: "nat \<Rightarrow> nat option"

text \<open>
  The database restricted to the Basic Latin and Malayalam blocks (Malayalam letters are
  uncased; U+0D66..U+0D6F are its decimal digits), for evaluating concrete inputs.
\<close>

definition sample_ucd :: ucd where
  "sample_ucd = \<lparr>
     uc_upper = (\<lambda>c. 65 \<le> c \<and> c \<le> 90),
     uc_lower = (\<lambda>c. 97 \<le> c \<and> c \<le> 122),
     uc_title = (\<lambda>c. False),
     uc_decimal = (\<lambda>c. if 48 \<le> c \<and> c \<le> 57 then Some (c - 48)
                        else if 3430 \<le> c \<and> c \<le> 3439 then Some (c - 3430) else None) \<rparr>"

text \<open>
  \<open>str.isupper()\<close>: no lowercase or titlecase character, and at least one uppercase one.
\<close>

definition isupper :: "ucd \<Rightarrow> ustr \<Rightarrow> bool" where
  "isupper db s \<longleftrightarrow>
     list_all (\<lambda>c. \<not> uc_lower db c \<and> \<not> uc_title db c) s \<and> list_ex (uc_upper db) s"

text \<open>\<open>s.find(c)\<close> for a single character: the first index, or no index (Python's -1).\<close>

fun find_char :: "nat \<Rightarrow> ustr \<Rightarrow> nat option" where
  "find_char c [] = None"
| "find_char c (x # s) = (if x = c then Some 0 else map_option Suc (find_char c s))"

definition endswith_dot :: "ustr \<Rightarrow> bool" where
  "endswith_dot s \<longleftrightarrow> s \<noteq> [] \<and> last s = 46"


section \<open>Bailey (1849): the separator-delimited dialect\<close>

definition POS_MAPPING :: "ustr \<rightharpoonup> ustr" where
  "POS_MAPPING = map_of
    [(ascii ''a'', ascii ''adjective''),
     (ascii ''ad'', ascii ''adverb''),
     (ascii ''adv'', ascii ''adverb''),
     (ascii ''art'', ascii ''article''),
     (ascii ''conj'', ascii ''conjunction''),
     (ascii ''s'', ascii ''noun''),
     (ascii ''v. a'', ascii ''verb-transitive''),
     (ascii ''v. n'', ascii ''verb-intransitive''),
     (ascii ''v. a. & n'', ascii ''verb''),
     (ascii ''v. n. & a'', ascii ''verb''),
     (ascii ''prep'', ascii ''preposition''),
     (ascii ''pron'', ascii ''pronoun''),
     (ascii ''pron. poss'', ascii ''pronoun-possessive''),
     (ascii ''recip. pron'', ascii ''pronoun-reciprocal''),
     (ascii ''interj'', ascii ''interjection''),
     (ascii ''part'', ascii ''participle''),
     (ascii ''part. a'', ascii ''participle''),
     (ascii ''part. pass'', ascii ''participle-passive''),
     (ascii ''part. pass. & a'', ascii ''participle-passive''),
     (ascii ''pret'', ascii ''past-tense''),
     (ascii ''pret. & part'', ascii ''past-participle''),
     (ascii ''pret. & part. pass'', ascii ''past-participle-passive''),
     (ascii ''v. defect'', ascii ''verb-defective''),
     (ascii ''verb imper'', ascii ''verb-imperfect''),
     (ascii ''pl'', ascii ''plural''),
     (ascii ''plu'', ascii ''plural''),
     (ascii ''fem'', ascii ''feminine'')]"

record BaileyEntry =
  headword :: ustr
  pos :: ustr
  definitions :: ustr
  line_number :: int
  pos_normalized :: ustr

text \<open>\<open>BaileyEntry.__init__\<close>; \<open>POS_MAPPING.get(self.pos, self.pos)\<close> falls back to the raw tag.\<close>

definition BaileyEntry_init :: "ustr \<Rightarrow> ustr \<Rightarrow> ustr \<Rightarrow> int \<Rightarrow> BaileyEntry" where
  "BaileyEntry_init hw p defs n =
     (let p' = (if p \<noteq> [] then strip p else [])
      in \<lparr> headword = strip hw, pos = p', definitions = strip defs, line_number = n,
           pos_normalized = (case POS_MAPPING p' of Some t \<Rightarrow> t | None \<Rightarrow> p') \<rparr>)"

definition is_malayalam_block :: "nat \<Rightarrow> bool" where
  "is_malayalam_block c \<longleftrightarrow> 3328 \<le> c \<and> c \<le> 3455"

text \<open>
  The pattern of a period, \<open>\s+\<close> and one character of U+0D00..U+0D7F, tried at the
  head of a string: a period, a maximal non-empty run of whitespace, a character of the
  Malayalam block. (Giving back
  whitespace cannot help: the character after a shorter run is whitespace.)
\<close>

definition match_pos_end :: "ustr \<Rightarrow> bool" where
  "match_pos_end s \<longleftrightarrow>
     (case s of [] \<Rightarrow> False
      | c # r \<Rightarrow> c = 46 \<and> takeWhile isspace r \<noteq> [] \<and>
          (case dropWhile isspace r of [] \<Rightarrow> False | d # _ \<Rightarrow> is_malayalam_block d))"

text \<open>\<open>re.search(...).start()\<close>: the leftmost position where the pattern matches.\<close>

fun search_pos_end :: "ustr \<Rightarrow> nat option" where
  "search_pos_end [] = None"
| "search_pos_end (c # s) =
     (if match_pos_end (c # s) then Some 0 else map_option Suc (search_pos_end s))"

definition parse_entry_line :: "ucd \<Rightarrow> ustr \<Rightarrow> int \<Rightarrow> BaileyEntry option" where
  "parse_entry_line db line0 n =
     (let line = strip line0 in
      if line = [] \<or> isupper db line then None
      else (case find_char 44 line of
        None \<Rightarrow> None
      | Some comma_pos \<Rightarrow>
          (let hw = strip (take comma_pos line);
               rest = strip (drop (comma_pos + 1) line)
           in (case search_pos_end rest of
                 None \<Rightarrow> None
               | Some pos_end \<Rightarrow>
                   (let p = strip (take pos_end rest);
                        defs = strip (drop (pos_end + 1) rest);
                        defs' = (if endswith_dot defs then strip (butlast defs) else defs)
                    in Some (BaileyEntry_init hw p defs' n))))))"


section \<open>Regular-expression scanning\<close>

text \<open>
  \<open>re.split\<close>, \<open>re.findall\<close> and \<open>re.sub\<close> scan the text from left to right: at each
  position the pattern is tried; a match is consumed and the scan resumes behind it,
  otherwise the scan moves one character on. None of the patterns used here matches the
  empty string. A pattern is given as a function that tries it at the head of the text left
  and returns the captured groups with the length of the match; the flag tells it whether
  the head is the start of the whole string (where \<open>^\<close> matches). The counter \<open>skip\<close> is the
  number of characters of the last match still to be consumed.
\<close>

type_synonym matcher = "bool \<Rightarrow> ustr \<Rightarrow> (ustr list \<times> nat) option"

fun re_split_from :: "matcher \<Rightarrow> bool \<Rightarrow> nat \<Rightarrow> ustr \<Rightarrow> ustr \<Rightarrow> ustr list" where
  "re_split_from m at_start skip cur [] = [cur]"
| "re_split_from m at_start skip cur (c # s) =
     (if 0 < skip then re_split_from m False (skip - 1) cur s
      else (case m at_start (c # s) of
              Some (groups, n) \<Rightarrow> cur # groups @ re_split_from m False (n - 1) [] s
            | None \<Rightarrow> re_split_from m False 0 (cur @ [c]) s))"

definition re_split :: "matcher \<Rightarrow> ustr \<Rightarrow> ustr list" where
  "re_split m s = re_split_from m True 0 [] s"

fun re_findall_from :: "matcher \<Rightarrow> bool \<Rightarrow> nat \<Rightarrow> ustr \<Rightarrow> ustr list" where
  "re_findall_from m at_start skip [] = []"
| "re_findall_from m at_start skip (c # s) =
     (if 0 < skip then re_findall_from m False (skip - 1) s
      else (case m at_start (c # s) of
              Some (groups, n) \<Rightarrow> groups @ re_findall_from m False (n - 1) s
            | None \<Rightarrow> re_findall_from m False 0 s))"

definition re_findall :: "matcher \<Rightarrow> ustr \<Rightarrow> ustr list" where
  "re_findall m s = re_findall_from m True 0 s"

fun re_sub_from :: "matcher \<Rightarrow> ustr \<Rightarrow> bool \<Rightarrow> nat \<Rightarrow> ustr \<Rightarrow> ustr" where
  "re_sub_from m repl at_start skip [] = []"
| "re_sub_from m repl at_start skip (c # s) =
     (if 0 < skip then re_sub_from m repl False (skip - 1) s
      else (case m at_start (c # s) of
              Some (groups, n) \<Rightarrow> repl @ re_sub_from m repl False (n - 1) s
            | None \<Rightarrow> c # re_sub_from m repl False 0 s))"

definition re_sub :: "matcher \<Rightarrow> ustr \<Rightarrow> ustr \<Rightarrow> ustr" where
  "re_sub m repl s = re_sub_from m repl True 0 s"

text \<open>\<open>re.search\<close> used as a truth value.\<close>

fun re_search :: "matcher \<Rightarrow> bool \<Rightarrow> ustr \<Rightarrow> bool" where
  "re_search m at_start [] = False"
| "re_search m at_start (c # s) = (m at_start (c # s) \<noteq> None \<or> re_search m False s)"

text \<open>Pieces of a pattern: each takes the text left and returns what is left behind it.\<close>

definition expect :: "ustr \<Rightarrow> ustr \<Rightarrow> ustr option" where
  "expect p s = (if take (length p) s = p then Some (drop (length p) s) else None)"

definition optional_char :: "nat \<Rightarrow> ustr \<Rightarrow> ustr" where
  "optional_char c s = (case s of [] \<Rightarrow> [] | x # r \<Rightarrow> if x = c then r else s)"

text \<open>\<open>\s+\<close>: a maximal, non-empty run of whitespace.\<close>

definition some_space :: "ustr \<Rightarrow> ustr option" where
  "some_space s = (if takeWhile isspace s = [] then None else Some (dropWhile isspace s))"

definition isdecimal :: "ucd \<Rightarrow> nat \<Rightarrow> bool" where
  "isdecimal db c \<longleftrightarrow> uc_decimal db c \<noteq> None"

definition startswith :: "ustr \<Rightarrow> ustr \<Rightarrow> bool" where
  "startswith s p \<longleftrightarrow> take (length p) s = p"

text \<open>\<open>p in s\<close> for strings: \<open>p\<close> occurs as a contiguous substring of \<open>s\<close>.\<close>

fun contains :: "ustr \<Rightarrow> ustr \<Rightarrow> bool" where
  "contains [] p = (p = [])"
| "contains (c # s) p = (startswith (c # s) p \<or> contains s p)"

text \<open>\<open>sep.join(parts)\<close>.\<close>

fun join :: "ustr \<Rightarrow> ustr list \<Rightarrow> ustr" where
  "join sep [] = []"
| "join sep [x] = x"
| "join sep (x # y # xs) = x @ sep @ join sep (y # xs)"

datatype error = ValueError | IndexError

text \<open>
  The interpreter's limit on the length of a digit string that \<open>int\<close> converts
  (\<open>sys.int_info.default_max_str_digits\<close>): a longer string is a \<open>ValueError\<close>.
\<close>

definition max_str_digits :: nat where
  "max_str_digits = 4300"

text \<open>
  \<open>int(s)\<close> on a match of \<open>\d+\<close>: the decimal value of a digit string within the limit.
  (\<open>int\<close> also reads signs, underscores and surrounding whitespace, which such a match
  never holds; any other string is a \<open>ValueError\<close>.)
\<close>

definition py_int :: "ucd \<Rightarrow> ustr \<Rightarrow> error + int" where
  "py_int db s =
     (if s \<noteq> [] \<and> list_all (isdecimal db) s \<and> length s \<le> max_str_digits
      then Inr (foldl (\<lambda>a c. 10 * a + int (case uc_decimal db c of Some d \<Rightarrow> d | None \<Rightarrow> 0)) 0 s)
      else Inl ValueError)"


section \<open>Gundert (1872): the TEI dialect\<close>

definition etymology_map :: "ustr \<rightharpoonup> ustr" where
  "etymology_map = map_of
    [(ascii ''S.'', ascii ''sanskrit''),
     (ascii ''T.'', ascii ''tamil''),
     (ascii ''M.'', ascii ''malayalam''),
     (ascii ''C.'', ascii ''canarese''),
     (ascii ''Te.'', ascii ''telugu''),
     (ascii ''Tu.'', ascii ''tulu''),
     (ascii ''So.'', ascii ''southern''),
     (ascii ''No.'', ascii ''northern''),
     (ascii ''V1.'', ascii ''verapoli1''),
     (ascii ''V2.'', ascii ''verapoli2''),
     (ascii ''TR.'', ascii ''tellicherry''),
     (ascii ''P.'', ascii ''persian''),
     (ascii ''Ar.'', ascii ''arabic''),
     (ascii ''Port.'', ascii ''portuguese''),
     (ascii ''E.'', ascii ''english''),
     (ascii ''H.'', ascii ''hindustani'')]"

definition citation_markers :: "ustr list" where
  "citation_markers = map ascii
    [''TR.'', ''Bhg.'', ''CG.'', ''KR.'', ''TP.'', ''PT.'', ''AR.'', ''Nal.'', ''Bhr.'',
     ''CC.'', ''RC.'', ''VyM.'', ''KU.'', ''Mud.'', ''ChVr.'', ''UR.'', ''GP.'',
     ''VCh.'', ''MC.'', ''MR.'', ''Anj.'', ''RS.'', ''SiPu.'', ''Bhag.'', ''Nid.'',
     ''Arb.'', ''Matsy.'', ''VivR.'', ''Sab.'', ''Tantr.'', ''VetC.'', ''Asht.'',
     ''Gan.'', ''GnP.'', ''Rh.'', ''PR.'', ''Sk.'', ''Tatw.'', ''VedD.'', ''KumK.'',
     ''Sah.'', ''Anach.'', ''Si Pu.'']"

text \<open>
  The character class written from U+0D05 (letter A) to U+0D7F (chillu K) in the patterns
  of this dialect. The signs U+0D00..U+0D04, the anusvara U+0D02 among them, lie below it.
\<close>

definition is_malayalam :: "nat \<Rightarrow> bool" where
  "is_malayalam c \<longleftrightarrow> 3333 \<le> c \<and> c \<le> 3455"

definition is_ascii_letter :: "nat \<Rightarrow> bool" where
  "is_ascii_letter c \<longleftrightarrow> (97 \<le> c \<and> c \<le> 122) \<or> (65 \<le> c \<and> c \<le> 90)"

text \<open>The romanization class: \<open>a-zA-Z\<close> and the listed letters with diacritics and combining marks.\<close>

definition is_roman :: "nat \<Rightarrow> bool" where
  "is_roman c \<longleftrightarrow> is_ascii_letter c \<or> c \<in> set
     [7789, 7693, 7751, 7775, 7735, 7749, 7745, 7747, 7717, 347, 7779, 257, 299, 363,
      7771, 7773, 7737, 275, 333, 224, 232, 236, 242, 249, 226, 234, 238, 244, 251,
      228, 235, 239, 246, 252, 227, 245, 241, 804, 805, 772, 768, 771]"

record cross_ref =
  r_type :: ustr
  r_word :: ustr

record sense =
  s_sense :: int
  s_malayalam :: ustr
  s_english :: ustr
  s_citations :: "ustr list"
  s_cross_refs :: "cross_ref list"
  s_raw :: ustr

record gundert_entry =
  g_malayalam :: ustr
  g_romanization :: ustr
  g_etymology_marker :: ustr
  g_etymology :: ustr
  g_page :: ustr
  g_raw_definition :: ustr
  g_definitions :: "sense list"

text \<open>
  \<open>extract_citations\<close>. \<open>list(set(citations))\<close> leaves the order of the result to the
  interpreter; the model keeps the order of first occurrence, and nothing below depends
  on it.
\<close>

definition remove_periods :: "ustr \<Rightarrow> ustr" where
  "remove_periods m = filter (\<lambda>c. c \<noteq> 46) m"

definition extract_citations :: "ustr \<Rightarrow> ustr list" where
  "extract_citations text =
     remdups (map remove_periods (filter (\<lambda>marker. contains text marker) citation_markers))"

text \<open>The word class of the cross-reference patterns, \<open>[..a-zA-Z]+\<close> over the Malayalam class.\<close>

definition is_ref_char :: "nat \<Rightarrow> bool" where
  "is_ref_char c \<longleftrightarrow> is_malayalam c \<or> is_ascii_letter c"

text \<open>
  Under \<open>re.IGNORECASE\<close> the ranges \<open>a-z\<close> and \<open>A-Z\<close> of a \<open>str\<close> pattern also match U+0130,
  U+0131, U+017F and U+212A, and the literal \<open>s\<close> also matches U+017F.
\<close>

definition is_ref_char_ignorecase :: "nat \<Rightarrow> bool" where
  "is_ref_char_ignorecase c \<longleftrightarrow> is_ref_char c \<or> c = 304 \<or> c = 305 \<or> c = 383 \<or> c = 8490"

text \<open>A non-empty maximal run of a class, captured.\<close>

definition word_run :: "(nat \<Rightarrow> bool) \<Rightarrow> ustr \<Rightarrow> (ustr \<times> ustr) option" where
  "word_run cls s = (if takeWhile cls s = [] then None else Some (takeWhile cls s, dropWhile cls s))"

text \<open>\<open>\(=\s*([..a-zA-Z]+)\)\<close>\<close>

definition match_equals_ref :: matcher where
  "match_equals_ref at_start s =
     Option.bind (expect (ascii ''(='') s) (\<lambda>r1.
     Option.bind (word_run is_ref_char (dropWhile isspace r1)) (\<lambda>(w, r2).
     Option.bind (expect (ascii '')'') r2) (\<lambda>r3.
     Some ([w], length s - length r3))))"

text \<open>\<open>see\s+([..a-zA-Z]+)\<close> with \<open>re.IGNORECASE\<close>\<close>

definition match_see_ref :: matcher where
  "match_see_ref at_start s =
     (case s of
        c1 # c2 # c3 # r0 \<Rightarrow>
          if (c1 = 115 \<or> c1 = 83 \<or> c1 = 383) \<and> (c2 = 101 \<or> c2 = 69) \<and> (c3 = 101 \<or> c3 = 69)
          then Option.bind (some_space r0) (\<lambda>r1.
               Option.bind (word_run is_ref_char_ignorecase r1) (\<lambda>(w, r2).
               Some ([w], length s - length r2)))
          else None
      | _ \<Rightarrow> None)"

text \<open>\<open>opp\.\s+([..a-zA-Z]+)\<close>\<close>

definition match_opp_ref :: matcher where
  "match_opp_ref at_start s =
     Option.bind (expect (ascii ''opp.'') s) (\<lambda>r0.
     Option.bind (some_space r0) (\<lambda>r1.
     Option.bind (word_run is_ref_char r1) (\<lambda>(w, r2).
     Some ([w], length s - length r2))))"

definition extract_cross_refs :: "ustr \<Rightarrow> cross_ref list" where
  "extract_cross_refs text =
     map (\<lambda>w. \<lparr> r_type = ascii ''synonym'', r_word = w \<rparr>) (re_findall match_equals_ref text) @
     map (\<lambda>w. \<lparr> r_type = ascii ''see_also'', r_word = w \<rparr>) (re_findall match_see_ref text) @
     map (\<lambda>w. \<lparr> r_type = ascii ''antonym'', r_word = w \<rparr>) (re_findall match_opp_ref text)"

text \<open>\<open>[.!?]\s+\<close>, the sentence boundary of \<open>separate_languages\<close>.\<close>

definition match_sentence_end :: matcher where
  "match_sentence_end at_start s =
     (case s of
        [] \<Rightarrow> None
      | c # r0 \<Rightarrow>
          if c = 46 \<or> c = 33 \<or> c = 63
          then Option.bind (some_space r0) (\<lambda>r1. Some ([], length s - length r1))
          else None)"

definition separate_languages :: "ustr \<Rightarrow> ustr list \<times> ustr list" where
  "separate_languages text =
     (let sentences = re_split match_sentence_end text
      in (filter (\<lambda>sent. list_ex is_malayalam sent) sentences,
          filter (\<lambda>sent. \<not> list_ex is_malayalam sent \<and> strip sent \<noteq> [] \<and> 2 < length (strip sent))
            sentences))"

definition parse_single_definition :: "int \<Rightarrow> ustr \<Rightarrow> sense" where
  "parse_single_definition sense_num text =
     (let citations = extract_citations text;
          cross_refs = extract_cross_refs text;
          (malayalam_parts, english_parts) = separate_languages text
      in \<lparr> s_sense = sense_num,
           s_malayalam = strip (join [32] malayalam_parts),
           s_english = strip (join [32] english_parts),
           s_citations = citations,
           s_cross_refs = cross_refs,
           s_raw = strip text \<rparr>)"

text \<open>\<open>(\d+)\.\s+\<close> at the head of the text: the digits captured and the length matched.\<close>

definition match_number :: "ucd \<Rightarrow> ustr \<Rightarrow> (ustr \<times> nat) option" where
  "match_number db s =
     Option.bind (word_run (isdecimal db) s) (\<lambda>(ds, r0).
     Option.bind (expect [46] r0) (\<lambda>r1.
     Option.bind (some_space r1) (\<lambda>r2.
     Some (ds, length s - length r2))))"

text \<open>
  The sense pattern \<open>(?:^|\s)(\d+)\.\s+\<close>: the alternative \<open>^\<close> is tried first and
  matches only at the start of the whole string, then one whitespace character.
\<close>

definition match_sense :: "ucd \<Rightarrow> matcher" where
  "match_sense db at_start s =
     (case (if at_start then match_number db s else None) of
        Some (ds, n) \<Rightarrow> Some ([ds], n)
      | None \<Rightarrow>
          (case s of
             [] \<Rightarrow> None
           | c # r \<Rightarrow>
               if isspace c
               then (case match_number db r of Some (ds, n) \<Rightarrow> Some ([ds], n + 1) | None \<Rightarrow> None)
               else None))"

text \<open>
  The loop \<open>for i in range(1, len(parts), 2)\<close> over \<open>parts[1:]\<close>: a number and the text
  behind it make a sense; a number with no text behind it is passed over.
\<close>

fun numbered_senses :: "ucd \<Rightarrow> ustr list \<Rightarrow> error + sense list" where
  "numbered_senses db (num # sense_text # rest) =
     (case py_int db num of
        Inl e \<Rightarrow> Inl e
      | Inr sense_num \<Rightarrow>
          (case numbered_senses db rest of
             Inl e \<Rightarrow> Inl e
           | Inr ds \<Rightarrow> Inr (parse_single_definition sense_num sense_text # ds)))"
| "numbered_senses db rest = Inr []"

definition lead_sense :: "ustr \<Rightarrow> sense list" where
  "lead_sense part0 =
     (if strip part0 \<noteq> [] \<and> \<not> startswith (strip part0) [40]
      then [parse_single_definition 0 part0] else [])"

definition parse_definitions :: "ucd \<Rightarrow> ustr \<Rightarrow> error + sense list" where
  "parse_definitions db text =
     (case re_split (match_sense db) text of
        [] \<Rightarrow> Inl IndexError
      | part0 # rest \<Rightarrow>
          (case numbered_senses db rest of
             Inl e \<Rightarrow> Inl e
           | Inr ds \<Rightarrow> Inr (lead_sense part0 @ ds)))"

text \<open>
  The alternatives of the etymology group, tried in the order of the pattern:
  \<open>S\.|T\.|M\.|C\.|Te\.|Tu\.|So\.|No\.|V\d\.|TR\.|P\.|Ar\.|Port\.|E\.|H\.|Tdbh\.\<close>
\<close>

definition literal_alt :: "string \<Rightarrow> ustr \<Rightarrow> ustr option" where
  "literal_alt p s = (if startswith s (ascii p) then Some (ascii p) else None)"

definition verapoli_alt :: "ucd \<Rightarrow> ustr \<Rightarrow> ustr option" where
  "verapoli_alt db s =
     (case s of
        c1 # c2 # c3 # _ \<Rightarrow>
          if c1 = 86 \<and> isdecimal db c2 \<and> c3 = 46 then Some [c1, c2, c3] else None
      | _ \<Rightarrow> None)"

fun first_alt :: "(ustr \<Rightarrow> ustr option) list \<Rightarrow> ustr \<Rightarrow> ustr option" where
  "first_alt [] s = None"
| "first_alt (a # alts) s = (case a s of Some m \<Rightarrow> Some m | None \<Rightarrow> first_alt alts s)"

definition match_etymology_marker :: "ucd \<Rightarrow> ustr \<Rightarrow> ustr option" where
  "match_etymology_marker db =
     first_alt
       (map literal_alt [''S.'', ''T.'', ''M.'', ''C.'', ''Te.'', ''Tu.'', ''So.'', ''No.''] @
        [verapoli_alt db] @
        map literal_alt [''TR.'', ''P.'', ''Ar.'', ''Port.'', ''E.'', ''H.'', ''Tdbh.''])"

text \<open>The optional group \<open>(?:\s+(marker))?\<close>: the marker captured and the text behind it.\<close>

definition optional_etymology :: "ucd \<Rightarrow> ustr \<Rightarrow> ustr \<times> ustr" where
  "optional_etymology db s =
     (case Option.bind (some_space s) (\<lambda>r.
             map_option (\<lambda>m. (m, drop (length m) r)) (match_etymology_marker db r)) of
        Some mr \<Rightarrow> mr
      | None \<Rightarrow> ([], s))"

text \<open>
  \<open>looks_like_entry\<close>: the text starts with a run of the Malayalam class, whitespace and a
  run of the romanization class.
\<close>

definition looks_like_entry :: "ustr \<Rightarrow> bool" where
  "looks_like_entry text =
     (Option.bind (word_run is_malayalam text) (\<lambda>(malayalam, r0).
      Option.bind (some_space r0) (\<lambda>r1. word_run is_roman r1)) \<noteq> None)"

text \<open>
  \<open>extract_entry\<close>: the pattern is anchored at the start, each run is maximal (no shorter
  run can be followed by what the pattern asks for next), and the last group, \<open>(.*)$\<close>
  under \<open>re.DOTALL\<close>, takes all the text left.
\<close>

definition extract_entry :: "ucd \<Rightarrow> ustr \<Rightarrow> ustr \<Rightarrow> error + gundert_entry option" where
  "extract_entry db text page_num =
     (case word_run is_malayalam text of
        None \<Rightarrow> Inr None
      | Some (malayalam, r0) \<Rightarrow>
          (case some_space r0 of
             None \<Rightarrow> Inr None
           | Some r1 \<Rightarrow>
               (case word_run is_roman r1 of
                  None \<Rightarrow> Inr None
                | Some (romanization, r2) \<Rightarrow>
                    (let (etymology_marker, r3) = optional_etymology db r2;
                         definition_text = strip r3
                     in if length definition_text < 3 then Inr None
                        else (case parse_definitions db definition_text of
                                Inl e \<Rightarrow> Inl e
                              | Inr defs \<Rightarrow>
                                  Inr (Some \<lparr> g_malayalam = malayalam,
                                     g_romanization = romanization,
                                     g_etymology_marker = etymology_marker,
                                     g_etymology = (case etymology_map etymology_marker of
                                                      Some lang \<Rightarrow> lang | None \<Rightarrow> []),
                                     g_page = page_num,
                                     g_raw_definition = definition_text,
                                     g_definitions = defs \<rparr>))))))"

text \<open>
  The first line-break pattern, \<open><lb\s*/?\s*></?\s*lb\s*>\<close>, in its two halves: the tag
  \<open><lb\s*/?\s*>\<close> and, directly behind it, a second or closing tag \<open></?\s*lb\s*>\<close>.
\<close>

definition first_lb_tag :: "ustr \<Rightarrow> ustr option" where
  "first_lb_tag s =
     Option.bind (expect (ascii ''<lb'') s) (\<lambda>r1.
     expect (ascii ''>'') (dropWhile isspace (optional_char 47 (dropWhile isspace r1))))"

definition second_lb_tag :: "ustr \<Rightarrow> ustr option" where
  "second_lb_tag s =
     Option.bind (expect (ascii ''<'') s) (\<lambda>r3.
     Option.bind (expect (ascii ''lb'') (dropWhile isspace (optional_char 47 r3))) (\<lambda>r4.
     expect (ascii ''>'') (dropWhile isspace r4)))"

definition match_lb_pair :: matcher where
  "match_lb_pair at_start s =
     Option.bind (first_lb_tag s) (\<lambda>r2.
     Option.bind (second_lb_tag r2) (\<lambda>r5.
     Some ([], length s - length r5)))"

text \<open>The second line-break pattern, \<open><lb\s*/>\<close>.\<close>

definition selfclosed_lb_tag :: "ustr \<Rightarrow> ustr option" where
  "selfclosed_lb_tag s =
     Option.bind (expect (ascii ''<lb'') s) (\<lambda>r1.
     expect (ascii ''/>'') (dropWhile isspace r1))"

definition match_lb_selfclosed :: matcher where
  "match_lb_selfclosed at_start s =
     Option.bind (selfclosed_lb_tag s) (\<lambda>r2. Some ([], length s - length r2))"

text \<open>\<open>\s+\<close>\<close>

definition match_whitespace :: matcher where
  "match_whitespace at_start s =
     Option.bind (some_space s) (\<lambda>r. Some ([], length s - length r))"

text \<open>
  \<open>clean_text\<close>, on the serialized element \<open>str(element)\<close>. The step
  \<open>BeautifulSoup(text, 'html.parser').get_text()\<close> belongs to a library outside the
  repository and is the parameter \<open>soup_get_text\<close>.
\<close>

definition clean_text :: "(ustr \<Rightarrow> ustr) \<Rightarrow> ustr \<Rightarrow> ustr" where
  "clean_text soup_get_text element_str =
     (let t1 = re_sub match_lb_pair [] element_str;
          t2 = re_sub match_lb_selfclosed [] t1;
          t3 = soup_get_text t2;
          t4 = re_sub match_whitespace [32] t3
      in strip t4)"

text \<open>
  The results of the library step at the texts of the examples below, as a table
  (BeautifulSoup 4 with \<open>html.parser\<close>, where a tag yields no text and a character
  reference yields the character it names): \<open>&lt;b&gt;x\<close> gives \<open><b>x\<close>, \<open><b>x\<close> gives
  \<open>x\<close>, and \<open><p>word</p>\<close> gives \<open>word\<close>. \<open>sample_soup_get_text\<close> looks a text up in
  the table and returns any other text as it is; the examples apply it to no text outside
  the table but the plain word \<open>welcome\<close>, which the library returns unchanged too. It
  stands for the library at these texts only.
\<close>

definition soup_results :: "(ustr \<times> ustr) list" where
  "soup_results =
    [(ascii ''&lt;b&gt;x'', ascii ''<b>x''),
     (ascii ''<b>x'', ascii ''x''),
     (ascii ''<p>welcome</p>'', ascii ''welcome''),
     (ascii ''<p>'' @ [3333, 3349, 3383] @ ascii ''</p>'', [3333, 3349, 3383])]"

definition sample_soup_get_text :: "ustr \<Rightarrow> ustr" where
  "sample_soup_get_text t = (case map_of soup_results t of Some r \<Rightarrow> r | None \<Rightarrow> t)"


section \<open>Sabdatharavali (1917): the XDXF dialect\<close>

text \<open>An \<open>xml.etree.ElementTree.Element\<close>: tag, attributes, text, children and tail.\<close>

datatype element =
  Element (el_tag: ustr) (el_attrib: "(ustr \<times> ustr) list") (el_text: "ustr option")
    (el_children: "element list") (el_tail: "ustr option")

definition findall :: "ustr \<Rightarrow> element \<Rightarrow> element list" where
  "findall tg e = filter (\<lambda>c. el_tag c = tg) (el_children e)"

definition find :: "ustr \<Rightarrow> element \<Rightarrow> element option" where
  "find tg e = (case findall tg e of [] \<Rightarrow> None | x # _ \<Rightarrow> Some x)"

definition get_attr :: "element \<Rightarrow> ustr \<Rightarrow> ustr \<Rightarrow> ustr" where
  "get_attr e key dflt = (case map_of (el_attrib e) key of Some v \<Rightarrow> v | None \<Rightarrow> dflt)"

text \<open>A piece is appended to \<open>text_parts\<close> when it is neither \<open>None\<close> nor empty.\<close>

definition part_of :: "ustr option \<Rightarrow> ustr list" where
  "part_of t = (case t of None \<Rightarrow> [] | Some s \<Rightarrow> if s \<noteq> [] then [s] else [])"

text \<open>
  \<open>get_text\<close> on an element (its callers test for \<open>None\<close> themselves): the element's text,
  then for each child its own text, a space if the child is a \<open>br\<close>, and its tail.
\<close>

fun get_text :: "element \<Rightarrow> ustr" where
  "get_text (Element tg attrs tx cs tail) =
     strip (concat (part_of tx @
       concat (map (\<lambda>child.
           part_of (Some (get_text child)) @
           (if el_tag child = ascii ''br'' then [[32]] else []) @
           part_of (el_tail child)) cs)))"

record stv_definition =
  d_type :: ustr
  d_text :: ustr
  d_example_type :: "ustr option"
  d_language :: ustr

record stv_cross_ref =
  x_word :: ustr
  x_type :: ustr

record stv_entry =
  stv_headword :: ustr
  stv_grammar :: ustr
  stv_definitions :: "stv_definition list"
  stv_cross_refs :: "stv_cross_ref list"
  stv_etymology :: ustr

text \<open>The loops of \<open>parse_entry\<close> over the \<open>deftext\<close>, \<open>expl\<close> and \<open>ex\<close> children of a block.\<close>

definition text_items :: "string \<Rightarrow> string \<Rightarrow> element \<Rightarrow> stv_definition list" where
  "text_items tg kind block =
     concat (map (\<lambda>el. let t = get_text el in
         if t \<noteq> [] then [\<lparr> d_type = ascii kind, d_text = t, d_example_type = None,
                             d_language = ascii ''malayalam'' \<rparr>] else [])
       (findall (ascii tg) block))"

definition example_items :: "element \<Rightarrow> stv_definition list" where
  "example_items block =
     concat (map (\<lambda>ex. let ex_type = get_attr ex (ascii ''type'') (ascii ''exm'') in
         (case find (ascii ''ex_orig'') ex of
            None \<Rightarrow> []
          | Some ex_orig \<Rightarrow> let t = get_text ex_orig in
              if t \<noteq> [] then [\<lparr> d_type = ascii ''example'', d_text = t,
                                  d_example_type = Some ex_type,
                                  d_language = ascii ''malayalam'' \<rparr>] else []))
       (findall (ascii ''ex'') block))"

definition cross_ref_items :: "element \<Rightarrow> stv_cross_ref list" where
  "cross_ref_items def_element =
     (case find (ascii ''sr'') def_element of
        None \<Rightarrow> []
      | Some sr \<Rightarrow>
          concat (map (\<lambda>kref. let ref_text = get_text kref in
              if ref_text \<noteq> []
              then [\<lparr> x_word = ref_text, x_type = get_attr kref (ascii ''type'') (ascii ''rel'') \<rparr>]
              else [])
            (findall (ascii ''kref'') sr)))"

definition parse_entry :: "element \<Rightarrow> stv_entry option" where
  "parse_entry ar =
     (case findall (ascii ''k'') ar of
        [] \<Rightarrow> None
      | k0 # _ \<Rightarrow>
          (let hw = get_text k0 in
           if hw = [] then None
           else (case find (ascii ''def'') ar of
                   None \<Rightarrow> None
                 | Some def_element \<Rightarrow>
                     Some \<lparr> stv_headword = hw,
                       stv_grammar = (case find (ascii ''gr'') def_element of
                                        Some gr \<Rightarrow> get_text gr | None \<Rightarrow> []),
                       stv_definitions =
                         text_items ''deftext'' ''definition'' def_element @
                         concat (map (\<lambda>sub_def.
                             text_items ''deftext'' ''definition'' sub_def @
                             text_items ''expl'' ''explanation'' sub_def @
                             example_items sub_def)
                           (findall (ascii ''def'') def_element)) @
                         text_items ''expl'' ''explanation'' def_element @
                         example_items def_element,
                       stv_cross_refs = cross_ref_items def_element,
                       stv_etymology = (case find (ascii ''etm'') def_element of
                                          Some etm \<Rightarrow> get_text etm | None \<Rightarrow> []) \<rparr>)))"


section \<open>Notions used in the statements\<close>

text \<open>
  Serialized markup that ends in text: every \<open><\<close> opens a tag that the next \<open>>\<close> closes,
  with no \<open><\<close> in between, and the text ends neither inside a tag nor on the \<open>>\<close> of
  one. The flag of \<open>tags_closed\<close> tells whether the scan is inside a tag.
\<close>

fun tags_closed :: "bool \<Rightarrow> ustr \<Rightarrow> bool" where
  "tags_closed in_tag [] = (\<not> in_tag)"
| "tags_closed in_tag (c # s) =
     (if in_tag then (if c = 62 then tags_closed False s else c \<noteq> 60 \<and> tags_closed True s)
      else tags_closed (c = 60) s)"

definition ends_in_text :: "ustr \<Rightarrow> bool" where
  "ends_in_text s \<longleftrightarrow> tags_closed False s \<and> (s = [] \<or> last s \<noteq> 62)"

text \<open>
  Whitespace-normal text: every whitespace character is a single space that is not followed
  by another whitespace character.
\<close>

fun ws_normal :: "ustr \<Rightarrow> bool" where
  "ws_normal [] = True"
| "ws_normal [c] = (if isspace c then c = 32 else True)"
| "ws_normal (c # d # s) = ((if isspace c then c = 32 \<and> \<not> isspace d else True) \<and> ws_normal (d # s))"


section \<open>Properties of the Bailey parser\<close>

lemma length_rstrip_le: "length (rstrip s) \<le> length s"
  using length_dropWhile_le [of isspace "rev s"] by (simp add: rstrip_def)

lemma length_lstrip_le: "length (lstrip s) \<le> length s"
  by (simp add: lstrip_def length_dropWhile_le)

lemma lstrip_id: "s = [] \<or> \<not> isspace (hd s) \<Longrightarrow> lstrip s = s"
  by (cases s) (simp_all add: lstrip_def)

lemma rstrip_id: "s = [] \<or> \<not> isspace (last s) \<Longrightarrow> rstrip s = s"
proof (cases s rule: rev_cases)
  case Nil
  then show ?thesis by (simp add: rstrip_def)
next
  case (snoc t a)
  assume "s = [] \<or> \<not> isspace (last s)"
  with snoc show ?thesis by (simp add: rstrip_def)
qed

lemma strip_id: "s = [] \<or> (\<not> isspace (hd s) \<and> \<not> isspace (last s)) \<Longrightarrow> strip s = s"
  unfolding strip_def using lstrip_id [of s] rstrip_id [of s] by auto

lemma lstrip_hd: "lstrip s \<noteq> [] \<Longrightarrow> \<not> isspace (hd (lstrip s))"
  unfolding lstrip_def using hd_dropWhile [of isspace s] by simp

lemma rstrip_last: "rstrip s \<noteq> [] \<Longrightarrow> \<not> isspace (last (rstrip s))"
  unfolding rstrip_def using hd_dropWhile [of isspace "rev s"]
  by (simp add: last_rev)

lemma rstrip_hd: "rstrip s \<noteq> [] \<Longrightarrow> \<not> isspace (hd s) \<Longrightarrow> \<not> isspace (hd (rstrip s))"
proof (induction s rule: rev_induct)
  case Nil
  then show ?case by (simp add: rstrip_def)
next
  case (snoc a t)
  show ?case
  proof (cases "isspace a")
    case True
    then have e: "rstrip (t @ [a]) = rstrip t" by (simp add: rstrip_def)
    with snoc.prems have "t \<noteq> []" by (auto simp: rstrip_def)
    with snoc e show ?thesis by simp
  next
    case False
    then have "rstrip (t @ [a]) = t @ [a]" by (simp add: rstrip_def)
    with snoc.prems show ?thesis by simp
  qed
qed

lemma strip_hd_last:
  "strip s \<noteq> [] \<Longrightarrow> \<not> isspace (hd (strip s)) \<and> \<not> isspace (last (strip s))"
proof -
  assume ne: "strip s \<noteq> []"
  then have r: "rstrip (lstrip s) \<noteq> []" by (simp add: strip_def)
  then have "lstrip s \<noteq> []" by (auto simp: rstrip_def)
  then have "\<not> isspace (hd (lstrip s))" by (rule lstrip_hd)
  with r have "\<not> isspace (hd (rstrip (lstrip s)))" by (rule rstrip_hd)
  moreover from r have "\<not> isspace (last (rstrip (lstrip s)))" by (rule rstrip_last)
  ultimately show ?thesis by (simp add: strip_def)
qed

lemma strip_strip: "strip (strip s) = strip s"
  using strip_id [of "strip s"] strip_hd_last [of s] by blast

lemma not_isspace_punct [simp]: "\<not> isspace 44" "\<not> isspace 46"
  by (simp_all add: isspace_def)

lemma malayalam_not_space: "is_malayalam_block c \<Longrightarrow> \<not> isspace c"
  by (auto simp: is_malayalam_block_def isspace_def)

lemma find_char_append: "c \<notin> set h \<Longrightarrow> find_char c (h @ c # t) = Some (length h)"
  by (induction h) auto

lemma lstrip_spaces: "list_all isspace w \<Longrightarrow> s = [] \<or> \<not> isspace (hd s) \<Longrightarrow> lstrip (w @ s) = s"
  by (induction w) (auto simp: lstrip_def intro: lstrip_id [unfolded lstrip_def])

lemma hd_dropWhile_append:
  "\<not> P x \<Longrightarrow> dropWhile P (xs @ x # ys) = d # r \<Longrightarrow> d \<in> set xs \<or> d = x"
  by (induction xs) (auto split: if_splits)

lemma search_pos_end_marker:
  assumes "\<forall>c\<in>set p. \<not> is_malayalam_block c" "sp \<noteq> []" "list_all isspace sp"
    "t \<noteq> []" "is_malayalam_block (hd t)"
  shows "search_pos_end (p @ 46 # sp @ t @ z) = Some (length p)"
  using assms(1)
proof (induction p)
  case Nil
  from assms(4,5) have nt: "\<not> isspace (hd (t @ z))" by (simp add: malayalam_not_space)
  from assms(4) have "t @ z \<noteq> []" by simp
  with nt assms(3) have d: "dropWhile isspace (sp @ t @ z) = t @ z"
    using lstrip_spaces [of sp "t @ z"] by (simp add: lstrip_def)
  from assms(2,3) have "takeWhile isspace (sp @ t @ z) \<noteq> []" by (cases sp) auto
  with d assms(4,5) show ?case by (cases t) (auto simp: match_pos_end_def)
next
  case (Cons c p)
  have "\<not> match_pos_end (c # p @ 46 # sp @ t @ z)"
  proof
    assume m: "match_pos_end (c # p @ 46 # sp @ t @ z)"
    then obtain d r where dr: "dropWhile isspace (p @ 46 # sp @ t @ z) = d # r" "is_malayalam_block d"
      by (auto simp: match_pos_end_def split: list.splits)
    from hd_dropWhile_append [OF not_isspace_punct(2) dr(1)] have "d \<in> set p \<or> d = 46" .
    with dr(2) Cons.prems show False by (auto simp: is_malayalam_block_def)
  qed
  with Cons show ?case by simp
qed

lemma strip_spaces_left: "list_all isspace w \<Longrightarrow> strip (w @ s) = strip s"
  by (induction w) (auto simp: strip_def lstrip_def)

lemmas py_str_defs = ascii_def strip_def lstrip_def rstrip_def isspace_def


text \<open>
  Claim C1, as amended. A line \<open>Head, pos. <target-text>.\<close> is taken as well formed when
  the headword holds no comma and no surrounding whitespace, the grammar marker holds no
  character of the Malayalam block and no surrounding whitespace, and the period after the
  marker is followed by one or more whitespace characters and a target text that begins with
  a character of the Malayalam block. For every such line that is not written entirely in
  upper-case, \<open>parse_entry_line\<close> returns an entry whose headword is \<open>Head\<close>, whose grammar
  marker is \<open>pos\<close>, and whose definitions are the text between the period after the marker
  and the trailing period, stripped of surrounding whitespace. (A line of this form with
  upper-case letters only, such as \<open>A, S. <target-text>.\<close>, is set aside as a section
  header and gives no entry.)
\<close>

theorem parse_entry_line_well_formed:
  assumes head: "44 \<notin> set Head" "strip Head = Head"
    and marker: "\<forall>c\<in>set marker. \<not> is_malayalam_block c" "strip marker = marker"
    and spaces: "sp \<noteq> []" "list_all isspace sp"
    and target: "target \<noteq> []" "is_malayalam_block (hd target)"
    and line: "line = Head @ [44, 32] @ marker @ [46] @ sp @ target @ [46]"
    and not_header: "\<not> isupper db line"
  shows "\<exists>e. parse_entry_line db line n = Some e \<and> headword e = Head \<and> pos e = marker \<and>
           definitions e = strip (sp @ target)"
proof -
  have "Head = [] \<or> \<not> isspace (hd Head)"
    using strip_hd_last [of Head] head(2) by auto
  then have hdl: "\<not> isspace (hd line)" using line by (cases Head) auto
  have "last line = 46" using line by simp
  then have s1: "strip line = line" using hdl by (intro strip_id) simp
  have ne: "line \<noteq> []" using line by simp
  have f: "find_char 44 line = Some (length Head)"
    using find_char_append [OF head(1)] line by simp
  have tk: "take (length Head) line = Head" using line by simp
  define rest where "rest = marker @ 46 # sp @ target @ [46]"
  have mh: "marker = [] \<or> \<not> isspace (hd marker)"
    using strip_hd_last [of marker] marker(2) by auto
  then have rh: "\<not> isspace (hd rest)" by (cases marker) (auto simp: rest_def)
  have dr: "drop (length Head + 1) line = [32] @ rest" using line by (simp add: rest_def)
  have "strip ([32] @ rest) = strip rest"
    by (rule strip_spaces_left) (simp add: isspace_def)
  also have "\<dots> = rest" using rh by (intro strip_id) (simp add: rest_def)
  finally have sr: "strip (drop (length Head + 1) line) = rest" using dr by simp
  have sp: "search_pos_end rest = Some (length marker)"
    unfolding rest_def using search_pos_end_marker [OF marker(1) spaces target, of "[46]"] by simp
  have tm: "take (length marker) rest = marker" by (simp add: rest_def)
  have dm: "drop (length marker + 1) rest = sp @ target @ [46]" by (simp add: rest_def)
  have th: "\<not> isspace (hd (target @ [46]))" using target by (simp add: malayalam_not_space)
  have "strip (sp @ target @ [46]) = strip (target @ [46])"
    by (rule strip_spaces_left) (rule spaces(2))
  also have "\<dots> = target @ [46]" using th by (intro strip_id) simp
  finally have sd: "strip (drop (length marker + 1) rest) = target @ [46]" using dm by simp
  have ed: "endswith_dot (target @ [46])" by (simp add: endswith_dot_def)
  have st: "strip (sp @ target) = strip target" by (rule strip_spaces_left) (rule spaces(2))
  have "parse_entry_line db line n = Some (BaileyEntry_init Head marker (strip target) n)"
    unfolding parse_entry_line_def Let_def s1 using ne not_header
    by (simp add: f tk sr [simplified] sp tm sd [simplified] ed head(2) marker(2))
  moreover have "headword (BaileyEntry_init Head marker (strip target) n) = Head"
    by (simp add: BaileyEntry_init_def Let_def head(2))
  moreover have "pos (BaileyEntry_init Head marker (strip target) n) = marker"
    by (simp add: BaileyEntry_init_def Let_def marker(2))
  moreover have "definitions (BaileyEntry_init Head marker (strip target) n) = strip (sp @ target)"
    by (simp add: BaileyEntry_init_def Let_def strip_strip st)
  ultimately show ?thesis by simp
qed

theorem parse_entry_line_well_formed_witness:
  "\<not> isupper sample_ucd (ascii ''A, art. '' @ [3346, 3376, 3393, 46]) \<and>
   (\<exists>e. parse_entry_line sample_ucd (ascii ''A, art. '' @ [3346, 3376, 3393, 46]) 1 = Some e \<and>
        headword e = ascii ''A'' \<and> pos e = ascii ''art'' \<and> definitions e = [3346, 3376, 3393])"
proof -
  have u: "\<not> isupper sample_ucd (ascii ''A'' @ [44, 32] @ ascii ''art'' @ [46] @ [32] @ [3346, 3376, 3393] @ [46])"
    by (simp add: isupper_def sample_ucd_def ascii_def)
  have "\<exists>e. parse_entry_line sample_ucd
          (ascii ''A'' @ [44, 32] @ ascii ''art'' @ [46] @ [32] @ [3346, 3376, 3393] @ [46]) 1 = Some e \<and>
        headword e = ascii ''A'' \<and> pos e = ascii ''art'' \<and>
        definitions e = strip ([32] @ [3346, 3376, 3393])"
    by (rule parse_entry_line_well_formed [OF _ _ _ _ _ _ _ _ refl u])
       (simp_all add: py_str_defs is_malayalam_block_def)
  with u show ?thesis by (simp add: py_str_defs)
qed


theorem parse_entry_line_upper_case_counterexample:
  "parse_entry_line sample_ucd (ascii ''A, S. '' @ [3346, 3376, 3393, 46]) 1 = None"
  by (simp add: parse_entry_line_def py_str_defs isupper_def sample_ucd_def)

text \<open>
  Claim C2. An entry with an empty headword is not discarded by the plain-text dialect: on
  the line \<open>, s. <target-text>.\<close> (a line that begins with its separator)
  \<open>parse_entry_line\<close> returns an entry whose headword is the empty string, where the claim
  says that no entry is returned.
\<close>

theorem parse_entry_line_empty_headword:
  "parse_entry_line sample_ucd (ascii '', s. '' @ [3346, 3376, 3393, 46]) 1 =
     Some \<lparr> headword = [], pos = ascii ''s'', definitions = [3346, 3376, 3393],
            line_number = 1, pos_normalized = ascii ''noun'' \<rparr>"
  by (simp add: parse_entry_line_def py_str_defs isupper_def sample_ucd_def match_pos_end_def
      is_malayalam_block_def endswith_dot_def BaileyEntry_init_def POS_MAPPING_def Let_def)


section \<open>Properties of the Gundert parser\<close>

lemmas scan_defs = re_split_def re_findall_def re_sub_def expect_def optional_char_def
  some_space_def word_run_def startswith_def isdecimal_def

lemmas gundert_defs = parse_definitions_def lead_sense_def parse_single_definition_def
  separate_languages_def extract_cross_refs_def extract_citations_def citation_markers_def
  remove_periods_def match_sense_def match_number_def match_sentence_end_def
  match_equals_ref_def match_see_ref_def match_opp_ref_def is_malayalam_def
  is_ascii_letter_def is_ref_char_def is_ref_char_ignorecase_def py_int_def max_str_digits_def

lemmas entry_defs = extract_entry_def optional_etymology_def match_etymology_marker_def
  literal_alt_def verapoli_alt_def etymology_map_def is_roman_def

lemmas clean_defs = clean_text_def sample_soup_get_text_def soup_results_def match_lb_pair_def
  match_lb_selfclosed_def first_lb_tag_def second_lb_tag_def selfclosed_lb_tag_def
  match_whitespace_def

text \<open>
  Claim C3. On the text of the claim, the head line of U+0D05 U+0D15 U+0D4D U+0D37 U+0D02
  with the romanization \<open>ak\<close> U+0161 \<open>am\<close>, the marker \<open>S.\<close> and the senses
  \<open>1. Eye. 2. wheel.\<close>, \<open>extract_entry\<close> returns no entry at all, whatever the page and
  the character database: the headword ends in the anusvara U+0D02, which the headword
  class U+0D05..U+0D7F leaves out, so the whitespace the pattern asks for after the
  headword run is not there. The claim says one entry with two senses.
\<close>

theorem extract_entry_aksham_rejected:
  "extract_entry db ([3333, 3349, 3405, 3383, 3330] @ ascii '' ak'' @ [353] @
       ascii ''am S. 1. Eye. 2. wheel.'') page_num = Inr None"
  by (simp add: extract_entry_def word_run_def is_malayalam_def some_space_def isspace_def
      ascii_def)

lemma re_split_no_match:
  "\<not> re_search m b s \<Longrightarrow> re_split_from m b 0 cur s = [cur @ s]"
  by (induction s arbitrary: b cur) (auto split: option.splits)

lemma word_run_class:
  "word_run cls s = Some (w, r) \<Longrightarrow> w \<noteq> [] \<and> list_all cls w \<and> s = w @ r"
  by (auto simp: word_run_def list_all_iff split: if_splits dest: set_takeWhileD)

lemma match_number_digits:
  "match_number db s = Some (ds, n) \<Longrightarrow> ds \<noteq> [] \<and> list_all (isdecimal db) ds"
  by (auto simp: match_number_def Option.bind_eq_Some_conv dest!: word_run_class)

lemma match_sense_group:
  "match_sense db b s = Some (gs, n) \<Longrightarrow> \<exists>g. gs = [g] \<and> g \<noteq> [] \<and> list_all (isdecimal db) g"
  by (auto simp: match_sense_def split: option.splits if_splits list.splits prod.splits
      dest!: match_number_digits)

lemma py_int_digits:
  "g \<noteq> [] \<Longrightarrow> list_all (isdecimal db) g \<Longrightarrow>
     (if length g \<le> max_str_digits then \<exists>v. py_int db g = Inr v
      else py_int db g = Inl ValueError)"
  by (simp add: py_int_def)

text \<open>
  The parts of the split are a lead text and then, for every match of the sense pattern, the
  digits and the text behind them. \<open>int\<close> reads every digit group within the interpreter's
  limit, and then the loop over the parts makes one sense for each match; a longer digit
  group makes it raise \<open>ValueError\<close>.
\<close>

lemma re_split_senses:
  "\<exists>part0 rest. re_split_from (match_sense db) b k cur s = part0 # rest \<and>
     (if list_all (\<lambda>g. length g \<le> max_str_digits) (re_findall_from (match_sense db) b k s)
      then \<exists>ds. numbered_senses db rest = Inr ds \<and>
             length ds = length (re_findall_from (match_sense db) b k s)
      else numbered_senses db rest = Inl ValueError)"
proof (induction s arbitrary: b k cur)
  case Nil
  show ?case by simp
next
  case (Cons c s)
  show ?case
  proof (cases "0 < k")
    case True
    have e1: "re_split_from (match_sense db) b k cur (c # s) =
        re_split_from (match_sense db) False (k - 1) cur s" using True by simp
    have e2: "re_findall_from (match_sense db) b k (c # s) =
        re_findall_from (match_sense db) False (k - 1) s" using True by simp
    show ?thesis unfolding e1 e2 by (rule Cons)
  next
    case k0: False
    show ?thesis
    proof (cases "match_sense db b (c # s)")
      case None
      have e1: "re_split_from (match_sense db) b k cur (c # s) =
          re_split_from (match_sense db) False 0 (cur @ [c]) s" using k0 None by simp
      have e2: "re_findall_from (match_sense db) b k (c # s) =
          re_findall_from (match_sense db) False 0 s" using k0 None by simp
      show ?thesis unfolding e1 e2 by (rule Cons)
    next
      case (Some gn)
      obtain gs n where gn: "gn = (gs, n)" by (cases gn)
      from match_sense_group [OF Some [unfolded gn]]
      obtain g where g: "gs = [g]" "g \<noteq> []" "list_all (isdecimal db) g" by blast
      from Cons [of False "n - 1" "[]"] obtain part0 rest where
        ih: "re_split_from (match_sense db) False (n - 1) [] s = part0 # rest"
          "if list_all (\<lambda>g. length g \<le> max_str_digits)
                (re_findall_from (match_sense db) False (n - 1) s)
           then \<exists>ds. numbered_senses db rest = Inr ds \<and>
                  length ds = length (re_findall_from (match_sense db) False (n - 1) s)
           else numbered_senses db rest = Inl ValueError" by blast
      have sp: "re_split_from (match_sense db) b k cur (c # s) = cur # g # part0 # rest"
        using k0 Some gn g(1) ih(1) by simp
      have fa: "re_findall_from (match_sense db) b k (c # s) =
          g # re_findall_from (match_sense db) False (n - 1) s"
        using k0 Some gn g(1) by simp
      show ?thesis
      proof (cases "length g \<le> max_str_digits")
        case True
        with py_int_digits [OF g(2,3)] obtain v where v: "py_int db g = Inr v" by auto
        show ?thesis
        proof (cases "list_all (\<lambda>g. length g \<le> max_str_digits)
            (re_findall_from (match_sense db) False (n - 1) s)")
          case all: True
          with ih(2) obtain ds where "numbered_senses db rest = Inr ds"
            "length ds = length (re_findall_from (match_sense db) False (n - 1) s)" by auto
          with v True all show ?thesis unfolding sp fa by simp
        next
          case False
          with ih(2) have "numbered_senses db rest = Inl ValueError" by simp
          with v False show ?thesis unfolding sp fa by simp
        qed
      next
        case False
        with py_int_digits [OF g(2,3)] have "py_int db g = Inl ValueError" by simp
        with False show ?thesis unfolding sp fa by simp
      qed
    qed
  qed
qed

text \<open>
  Claim C4, as amended. The first part of the split is the text before the first
  numbered-sense marker. If that text, stripped of surrounding whitespace, is non-empty and
  does not begin with an open parenthesis, and no numbered-sense marker of the text has more
  digits than \<open>int\<close> converts (4300), it becomes the first sense, with sense number 0. If
  the sense pattern matches nowhere in the text, the whole remainder becomes exactly one
  sense, numbered 0, when its stripped form is non-empty and does not begin with an open
  parenthesis, and no sense at all otherwise.
\<close>

theorem parse_definitions_lead_sense:
  "(\<forall>part0 rest. re_split (match_sense db) text = part0 # rest \<longrightarrow>
       strip part0 \<noteq> [] \<longrightarrow> \<not> startswith (strip part0) [40] \<longrightarrow>
       list_all (\<lambda>g. length g \<le> max_str_digits) (re_findall (match_sense db) text) \<longrightarrow>
       (\<exists>d ds. parse_definitions db text = Inr (d # ds) \<and>
          d = parse_single_definition 0 part0 \<and> s_sense d = 0)) \<and>
   (\<not> re_search (match_sense db) True text \<longrightarrow>
       parse_definitions db text =
         Inr (if strip text \<noteq> [] \<and> \<not> startswith (strip text) [40]
              then [parse_single_definition 0 text] else []))"
proof (intro conjI allI impI)
  fix part0 rest
  assume p: "re_split (match_sense db) text = part0 # rest"
    and l: "strip part0 \<noteq> []" "\<not> startswith (strip part0) [40]"
    and a: "list_all (\<lambda>g. length g \<le> max_str_digits) (re_findall (match_sense db) text)"
  from re_split_senses [of db True 0 "[]" "text"] p a
  obtain ds where "numbered_senses db rest = Inr ds"
    by (auto simp: re_split_def re_findall_def)
  with p l show "\<exists>d ds. parse_definitions db text = Inr (d # ds) \<and>
      d = parse_single_definition 0 part0 \<and> s_sense d = 0"
    by (simp add: parse_definitions_def lead_sense_def parse_single_definition_def
        Let_def split: prod.splits)
next
  assume "\<not> re_search (match_sense db) True text"
  then have "re_split (match_sense db) text = [text]"
    using re_split_no_match [of "match_sense db" True "text" "[]"] by (simp add: re_split_def)
  then show "parse_definitions db text =
      Inr (if strip text \<noteq> [] \<and> \<not> startswith (strip text) [40]
           then [parse_single_definition 0 text] else [])"
    by (simp add: parse_definitions_def lead_sense_def)
qed

theorem parse_definitions_lead_sense_witness:
  "parse_definitions sample_ucd (ascii ''Eye 1. wheel'') =
     Inr [parse_single_definition 0 (ascii ''Eye''), parse_single_definition 1 (ascii ''wheel'')] \<and>
   \<not> re_search (match_sense sample_ucd) True (ascii ''(oc-ulus) Eye'') \<and>
   parse_definitions sample_ucd (ascii ''(oc-ulus) Eye'') = Inr [] \<and>
   \<not> re_search (match_sense sample_ucd) True (ascii ''Eye'') \<and>
   parse_definitions sample_ucd (ascii ''Eye'') = Inr [parse_single_definition 0 (ascii ''Eye'')]"
proof -
  have s: "re_split (match_sense sample_ucd) (ascii ''Eye 1. wheel'') =
      [ascii ''Eye'', ascii ''1'', ascii ''wheel'']"
    by (simp add: gundert_defs scan_defs py_str_defs sample_ucd_def)
  have l: "strip (ascii ''Eye'') \<noteq> []" "\<not> startswith (strip (ascii ''Eye'')) [40]"
    by (simp_all add: scan_defs py_str_defs)
  have f: "list_all (\<lambda>g. length g \<le> max_str_digits)
      (re_findall (match_sense sample_ucd) (ascii ''Eye 1. wheel''))"
    by (simp add: gundert_defs scan_defs py_str_defs sample_ucd_def)
  from parse_definitions_lead_sense [of sample_ucd "ascii ''Eye 1. wheel''"] s l f
  obtain ds where d: "parse_definitions sample_ucd (ascii ''Eye 1. wheel'') =
      Inr (parse_single_definition 0 (ascii ''Eye'') # ds)" by auto
  have "parse_definitions sample_ucd (ascii ''Eye 1. wheel'') =
      Inr (lead_sense (ascii ''Eye'') @ [parse_single_definition 1 (ascii ''wheel'')])"
    using s by (simp add: parse_definitions_def py_int_def isdecimal_def sample_ucd_def ascii_def
        max_str_digits_def)
  with d l have a: "parse_definitions sample_ucd (ascii ''Eye 1. wheel'') =
      Inr [parse_single_definition 0 (ascii ''Eye''), parse_single_definition 1 (ascii ''wheel'')]"
    by (simp add: lead_sense_def)
  have n1: "\<not> re_search (match_sense sample_ucd) True (ascii ''(oc-ulus) Eye'')"
    by (simp add: gundert_defs scan_defs py_str_defs sample_ucd_def)
  have n2: "\<not> re_search (match_sense sample_ucd) True (ascii ''Eye'')"
    by (simp add: gundert_defs scan_defs py_str_defs sample_ucd_def)
  from parse_definitions_lead_sense [of sample_ucd "ascii ''(oc-ulus) Eye''"] n1
  have b: "parse_definitions sample_ucd (ascii ''(oc-ulus) Eye'') = Inr []"
    by (simp add: scan_defs py_str_defs)
  from parse_definitions_lead_sense [of sample_ucd "ascii ''Eye''"] n2
  have c: "parse_definitions sample_ucd (ascii ''Eye'') =
      Inr [parse_single_definition 0 (ascii ''Eye'')]"
    by (simp add: scan_defs py_str_defs)
  from a n1 b n2 c show ?thesis by simp
qed

theorem parse_definitions_parenthesis_counterexample:
  "re_split (match_sense sample_ucd) (ascii ''(oc-ulus) Eye'') = [ascii ''(oc-ulus) Eye''] \<and>
   parse_definitions sample_ucd (ascii ''(oc-ulus) Eye'') = Inr []"
  by (simp add: gundert_defs scan_defs py_str_defs sample_ucd_def Let_def)

text \<open>
  Claim C6, as amended. A sense whose target text, source text, citations and
  cross-references are all empty is not dropped. When no numbered-sense marker of the text
  has more digits than \<open>int\<close> converts (4300), \<open>parse_definitions\<close> returns the lead sense,
  if the lead text qualifies, followed by exactly one sense for every match of the
  numbered-sense pattern, whatever the classifier found in it; otherwise it raises
  \<open>ValueError\<close> and returns no senses.
\<close>

theorem parse_definitions_keeps_every_sense:
  "\<exists>part0 rest. re_split (match_sense db) text = part0 # rest \<and>
     (if list_all (\<lambda>g. length g \<le> max_str_digits) (re_findall (match_sense db) text)
      then \<exists>ds. parse_definitions db text = Inr (lead_sense part0 @ ds) \<and>
             length ds = length (re_findall (match_sense db) text)
      else parse_definitions db text = Inl ValueError)"
proof -
  from re_split_senses [of db True 0 "[]" "text"] obtain part0 rest where
    p: "re_split (match_sense db) text = part0 # rest"
    and r: "if list_all (\<lambda>g. length g \<le> max_str_digits) (re_findall (match_sense db) text)
      then \<exists>ds. numbered_senses db rest = Inr ds \<and>
             length ds = length (re_findall (match_sense db) text)
      else numbered_senses db rest = Inl ValueError"
    unfolding re_split_def re_findall_def by blast
  show ?thesis
  proof (cases "list_all (\<lambda>g. length g \<le> max_str_digits) (re_findall (match_sense db) text)")
    case True
    with r obtain ds where "numbered_senses db rest = Inr ds"
      "length ds = length (re_findall (match_sense db) text)" by auto
    with p True show ?thesis by (simp add: parse_definitions_def)
  next
    case False
    with r have "numbered_senses db rest = Inl ValueError" by simp
    with p False show ?thesis by (simp add: parse_definitions_def)
  qed
qed

theorem parse_definitions_keeps_every_sense_witness:
  "re_findall (match_sense sample_ucd) (ascii ''1. ab 2. Eye'') = [ascii ''1'', ascii ''2''] \<and>
   (\<exists>ds. parse_definitions sample_ucd (ascii ''1. ab 2. Eye'') = Inr ds \<and> length ds = 2)"
proof -
  have f: "re_findall (match_sense sample_ucd) (ascii ''1. ab 2. Eye'') = [ascii ''1'', ascii ''2'']"
    by (simp add: gundert_defs scan_defs py_str_defs sample_ucd_def)
  have s: "re_split (match_sense sample_ucd) (ascii ''1. ab 2. Eye'') =
      [[], ascii ''1'', ascii ''ab'', ascii ''2'', ascii ''Eye'']"
    by (simp add: gundert_defs scan_defs py_str_defs sample_ucd_def)
  have a: "list_all (\<lambda>g. length g \<le> max_str_digits)
      (re_findall (match_sense sample_ucd) (ascii ''1. ab 2. Eye''))"
    unfolding f by (simp add: max_str_digits_def ascii_def)
  from parse_definitions_keeps_every_sense [of sample_ucd "ascii ''1. ab 2. Eye''"] a
  obtain part0 ds where "parse_definitions sample_ucd (ascii ''1. ab 2. Eye'') =
      Inr (lead_sense part0 @ ds)" "[] = part0"
      "length ds = length (re_findall (match_sense sample_ucd) (ascii ''1. ab 2. Eye''))"
    unfolding s by auto
  then show ?thesis unfolding f by (auto simp: lead_sense_def strip_def lstrip_def rstrip_def)
qed

theorem parse_definitions_empty_sense_counterexample:
  "parse_definitions sample_ucd (ascii ''1. ab'') =
     Inr [\<lparr> s_sense = 1, s_malayalam = [], s_english = [], s_citations = [],
            s_cross_refs = [], s_raw = ascii ''ab'' \<rparr>]"
  by (simp add: gundert_defs scan_defs py_str_defs sample_ucd_def Let_def)

lemma parse_entry_line_init:
  "parse_entry_line db line n = Some e \<Longrightarrow> \<exists>hw p d. e = BaileyEntry_init hw p d n"
  by (auto simp: parse_entry_line_def Let_def split: if_splits option.splits)

text \<open>
  Claim C7, as amended. A grammar marker with no entry in \<open>POS_MAPPING\<close> is kept verbatim
  as the canonical part of speech. An etymology marker with no entry in \<open>etymology_map\<close>
  is kept verbatim in \<open>etymology_marker\<close> only: the canonical etymology is then the empty
  string.
\<close>

theorem unmapped_marker_fallback:
  "(parse_entry_line db line n = Some e \<longrightarrow> POS_MAPPING (pos e) = None \<longrightarrow>
      pos_normalized e = pos e) \<and>
   (extract_entry db text page_num = Inr (Some g) \<longrightarrow>
      etymology_map (g_etymology_marker g) = None \<longrightarrow> g_etymology g = [])"
proof (intro conjI impI)
  assume "parse_entry_line db line n = Some e" and u: "POS_MAPPING (pos e) = None"
  then obtain hw p d where "e = BaileyEntry_init hw p d n"
    using parse_entry_line_init by blast
  with u show "pos_normalized e = pos e"
    by (simp add: BaileyEntry_init_def Let_def split: if_splits)
next
  assume "extract_entry db text page_num = Inr (Some g)"
    and "etymology_map (g_etymology_marker g) = None"
  then show "g_etymology g = []"
    by (auto simp: extract_entry_def Let_def split: option.splits prod.splits if_splits sum.splits)
qed

theorem unmapped_marker_fallback_witness:
  "parse_entry_line sample_ucd (ascii ''Abbey, n. '' @ [3346, 3376, 3393, 46]) 7 =
     Some \<lparr> headword = ascii ''Abbey'', pos = ascii ''n'', definitions = [3346, 3376, 3393],
            line_number = 7, pos_normalized = ascii ''n'' \<rparr> \<and>
   POS_MAPPING (ascii ''n'') = None \<and>
   (\<exists>g. extract_entry sample_ucd ([3333, 3349] @ ascii '' aka Tdbh. a thing'') (ascii ''23'') =
        Inr (Some g) \<and> g_etymology_marker g = ascii ''Tdbh.'' \<and>
        etymology_map (g_etymology_marker g) = None \<and> g_etymology g = [])"
proof -
  obtain e where e: "parse_entry_line sample_ucd (ascii ''Abbey, n. '' @ [3346, 3376, 3393, 46]) 7
      = Some e" "headword e = ascii ''Abbey''" "pos e = ascii ''n''"
      "definitions e = [3346, 3376, 3393]" "line_number e = 7"
    by (simp add: parse_entry_line_def py_str_defs isupper_def sample_ucd_def match_pos_end_def
      is_malayalam_block_def endswith_dot_def BaileyEntry_init_def POS_MAPPING_def Let_def)
  have u: "POS_MAPPING (ascii ''n'') = None" by (simp add: POS_MAPPING_def ascii_def)
  obtain g where g: "extract_entry sample_ucd ([3333, 3349] @ ascii '' aka Tdbh. a thing'')
      (ascii ''23'') = Inr (Some g)" "g_etymology_marker g = ascii ''Tdbh.''"
    by (simp add: entry_defs gundert_defs scan_defs py_str_defs sample_ucd_def Let_def)
  have v: "etymology_map (ascii ''Tdbh.'') = None" by (simp add: etymology_map_def ascii_def)
  from unmapped_marker_fallback [of sample_ucd "ascii ''Abbey, n. '' @ [3346, 3376, 3393, 46]"
      7 e "[3333, 3349] @ ascii '' aka Tdbh. a thing''" "ascii ''23''" g] e u g v
  have "pos_normalized e = ascii ''n''" "g_etymology g = []" by simp_all
  with e u g v show ?thesis by (cases e) auto
qed

theorem etymology_fallback_counterexample:
  "extract_entry sample_ucd ([3333, 3349] @ ascii '' aka Tdbh. a thing'') (ascii ''23'') =
     Inr (Some \<lparr> g_malayalam = [3333, 3349], g_romanization = ascii ''aka'',
       g_etymology_marker = ascii ''Tdbh.'', g_etymology = [], g_page = ascii ''23'',
       g_raw_definition = ascii ''a thing'',
       g_definitions = [\<lparr> s_sense = 0, s_malayalam = [], s_english = ascii ''a thing'',
          s_citations = [], s_cross_refs = [], s_raw = ascii ''a thing'' \<rparr>] \<rparr>) \<and>
   etymology_map (ascii ''Tdbh.'') = None"
  by (simp add: entry_defs gundert_defs scan_defs py_str_defs sample_ucd_def Let_def)

lemma startswith_iff: "startswith s p \<longleftrightarrow> (\<exists>b. s = p @ b)"
  unfolding startswith_def
  by (metis append_eq_conv_conj append_take_drop_id)

lemma contains_iff: "contains s p \<longleftrightarrow> (\<exists>a b. s = a @ p @ b)"
proof (induction s)
  case Nil
  show ?case by auto
next
  case (Cons c s)
  show ?case
  proof
    assume "contains (c # s) p"
    then consider "startswith (c # s) p" | "contains s p" by auto
    then show "\<exists>a b. c # s = a @ p @ b"
    proof cases
      case 1
      then obtain b where "c # s = p @ b" by (auto simp: startswith_iff)
      then have "c # s = [] @ p @ b" by simp
      then show ?thesis by blast
    next
      case 2
      with Cons obtain a b where "s = a @ p @ b" by blast
      then have "c # s = (c # a) @ p @ b" by simp
      then show ?thesis by blast
    qed
  next
    assume "\<exists>a b. c # s = a @ p @ b"
    then obtain a b where ab: "c # s = a @ p @ b" by blast
    show "contains (c # s) p"
    proof (cases a)
      case Nil
      with ab have "startswith (c # s) p" unfolding startswith_iff by auto
      then show ?thesis by simp
    next
      case (Cons x a')
      with ab have "s = a' @ p @ b" by simp
      with Cons.IH show ?thesis by auto
    qed
  qed
qed

lemma citation_names_distinct: "distinct (map remove_periods citation_markers)"
  by (simp add: citation_markers_def remove_periods_def ascii_def)

lemma count_list_distinct: "distinct xs \<Longrightarrow> x \<in> set xs \<Longrightarrow> count_list xs x = 1"
  by (induction xs) auto

text \<open>
  Claim C9, as amended. For every sense text, \<open>extract_citations\<close> returns a duplicate-free
  collection that holds, with its periods removed, each marker of the fixed citation list
  that occurs as a substring of the text, and nothing else; distinct markers give distinct
  citations, so the collection has as many members as there are markers that occur. In
  particular a text in which a marker occurs twice yields that citation exactly once.
\<close>

theorem extract_citations_exact:
  "distinct (extract_citations text) \<and>
   set (extract_citations text) =
     remove_periods ` {m \<in> set citation_markers. \<exists>a b. text = a @ m @ b} \<and>
   length (extract_citations text) = card {m \<in> set citation_markers. \<exists>a b. text = a @ m @ b} \<and>
   (\<forall>m \<in> set citation_markers. \<forall>a b c.
      count_list (extract_citations (a @ m @ b @ m @ c)) (remove_periods m) = 1)"
proof -
  let ?found = "\<lambda>t. filter (\<lambda>marker. contains t marker) citation_markers"
  have d: "\<And>t. distinct (map remove_periods (?found t))"
    using citation_names_distinct by (rule distinct_map_filter)
  have e: "\<And>t. extract_citations t = map remove_periods (?found t)"
    unfolding extract_citations_def using d by (simp add: distinct_remdups_id)
  have s: "\<And>t. set (?found t) = {m \<in> set citation_markers. \<exists>a b. t = a @ m @ b}"
    by (auto simp: contains_iff)
  have dm: "distinct citation_markers" using citation_names_distinct by (simp add: distinct_map)
  have "length (extract_citations text) = length (?found text)" by (simp add: e)
  also have "\<dots> = card (set (?found text))"
    by (metis distinct_card distinct_filter dm)
  finally have l: "length (extract_citations text) =
      card {m \<in> set citation_markers. \<exists>a b. text = a @ m @ b}" by (simp only: s)
  have c: "\<forall>m \<in> set citation_markers. \<forall>a b c.
      count_list (extract_citations (a @ m @ b @ m @ c)) (remove_periods m) = 1"
  proof (intro ballI allI)
    fix m a b c assume m: "m \<in> set citation_markers"
    have "contains (a @ m @ b @ m @ c) m" unfolding contains_iff by blast
    with m have "remove_periods m \<in> set (extract_citations (a @ m @ b @ m @ c))"
      by (simp add: e)
    then show "count_list (extract_citations (a @ m @ b @ m @ c)) (remove_periods m) = 1"
      using d [of "a @ m @ b @ m @ c"] by (simp only: e count_list_distinct)
  qed
  show ?thesis using d [of "text"] l c by (simp add: e s [symmetric])
qed

theorem extract_citations_exact_witness:
  "ascii ''TR.'' \<in> set citation_markers \<and>
   extract_citations (ascii ''so TR. and TR. also'') = [ascii ''TR''] \<and>
   count_list (extract_citations (ascii ''so '' @ ascii ''TR.'' @ ascii '' and '' @ ascii ''TR.''
      @ ascii '' also'')) (remove_periods (ascii ''TR.'')) = 1"
proof -
  have m: "ascii ''TR.'' \<in> set citation_markers" by (simp add: citation_markers_def)
  from extract_citations_exact [of "ascii ''so TR. and TR. also''"] m
  have "count_list (extract_citations (ascii ''so '' @ ascii ''TR.'' @ ascii '' and '' @
      ascii ''TR.'' @ ascii '' also'')) (remove_periods (ascii ''TR.'')) = 1" by blast
  moreover have "extract_citations (ascii ''so TR. and TR. also'') = [ascii ''TR'']"
    by (simp add: gundert_defs scan_defs py_str_defs)
  ultimately show ?thesis using m by simp
qed

theorem extract_citations_period_counterexample:
  "extract_citations (ascii ''see TR. here'') = [ascii ''TR''] \<and>
   ascii ''TR.'' \<in> set citation_markers \<and> ascii ''TR'' \<notin> set citation_markers"
  by (simp add: gundert_defs scan_defs py_str_defs)


section \<open>Properties of the Sabdatharavali parser\<close>

lemma filter_other_tag:
  assumes "filter (\<lambda>c. el_tag c \<noteq> k) xs = filter (\<lambda>c. el_tag c \<noteq> k) ys" "t \<noteq> k"
  shows "filter (\<lambda>c. el_tag c = t) xs = filter (\<lambda>c. el_tag c = t) ys"
proof -
  have "\<And>zs. filter (\<lambda>c. el_tag c = t) (filter (\<lambda>c. el_tag c \<noteq> k) zs) =
      filter (\<lambda>c. el_tag c = t) zs"
    using assms(2) by (auto intro: filter_cong)
  with assms(1) show ?thesis by metis
qed

text \<open>
  Claim C10. In an entry element whose first \<open>k\<close> child is \<open>k0\<close>, the headword of the
  parsed entry is the text of \<open>k0\<close>, and the \<open>k\<close> children behind it are ignored:
  adding, removing or changing them leaves the result of \<open>parse_entry\<close> unchanged (an entry
  has no field for an alternate headword).
\<close>

theorem parse_entry_first_headword:
  assumes "el_tag k0 = ascii ''k''"
    and "list_all (\<lambda>c. el_tag c \<noteq> ascii ''k'') before"
    and "filter (\<lambda>c. el_tag c \<noteq> ascii ''k'') later' = filter (\<lambda>c. el_tag c \<noteq> ascii ''k'') later"
  shows "parse_entry (Element tg attrs tx (before @ k0 # later') tail) =
           parse_entry (Element tg attrs tx (before @ k0 # later) tail) \<and>
         (\<forall>e. parse_entry (Element tg attrs tx (before @ k0 # later) tail) = Some e \<longrightarrow>
            stv_headword e = get_text k0)"
proof -
  have nk: "filter (\<lambda>c. el_tag c = ascii ''k'') before = []"
    using assms(2) by (auto simp: list_all_iff filter_empty_conv)
  have k: "\<And>xs. findall (ascii ''k'') (Element tg attrs tx (before @ k0 # xs) tail) =
      k0 # filter (\<lambda>c. el_tag c = ascii ''k'') xs"
    using assms(1) nk by (simp add: findall_def)
  have d: "find (ascii ''def'') (Element tg attrs tx (before @ k0 # later') tail) =
      find (ascii ''def'') (Element tg attrs tx (before @ k0 # later) tail)"
    using filter_other_tag [OF assms(3), of "ascii ''def''"] assms(1)
    by (simp add: find_def findall_def ascii_def)
  show ?thesis
    by (auto simp: parse_entry_def k d Let_def split: option.splits)
qed

theorem parse_entry_first_headword_witness:
  "parse_entry (Element (ascii ''ar'') [] None
      [Element (ascii ''k'') [] (Some [3333, 3349]) [] None,
       Element (ascii ''k'') [] (Some [3334]) [] None,
       Element (ascii ''def'') [] None [Element (ascii ''deftext'') [] (Some [3346]) [] None] None]
      None) =
   Some \<lparr> stv_headword = [3333, 3349], stv_grammar = [],
     stv_definitions = [\<lparr> d_type = ascii ''definition'', d_text = [3346],
        d_example_type = None, d_language = ascii ''malayalam'' \<rparr>],
     stv_cross_refs = [], stv_etymology = [] \<rparr>"
proof -
  let ?k0 = "Element (ascii ''k'') [] (Some [3333, 3349]) [] None"
  let ?k1 = "Element (ascii ''k'') [] (Some [3334]) [] None"
  let ?d = "Element (ascii ''def'') [] None [Element (ascii ''deftext'') [] (Some [3346]) [] None] None"
  have "parse_entry (Element (ascii ''ar'') [] None ([] @ ?k0 # [?k1, ?d]) None) =
        parse_entry (Element (ascii ''ar'') [] None ([] @ ?k0 # [?d]) None)"
    using parse_entry_first_headword [of ?k0 "[]" "[?k1, ?d]" "[?d]" "ascii ''ar''" "[]" None None]
    by (simp add: ascii_def)
  also have "\<dots> = Some \<lparr> stv_headword = [3333, 3349], stv_grammar = [],
     stv_definitions = [\<lparr> d_type = ascii ''definition'', d_text = [3346],
        d_example_type = None, d_language = ascii ''malayalam'' \<rparr>],
     stv_cross_refs = [], stv_etymology = [] \<rparr>"
    by (simp add: parse_entry_def findall_def find_def text_items_def example_items_def
        cross_ref_items_def part_of_def py_str_defs Let_def)
  finally show ?thesis by simp
qed

section \<open>Properties of the text normalizers\<close>

lemma expect_local:
  "c \<notin> set p \<Longrightarrow> expect p (t @ c # y) = map_option (\<lambda>t'. t' @ c # y) (expect p t)"
proof (cases "length p \<le> length t")
  case True
  then show ?thesis by (simp add: expect_def)
next
  case False
  assume c: "c \<notin> set p"
  have a: "take (length p) t \<noteq> p"
  proof
    assume "take (length p) t = p"
    then have "length (take (length p) t) = length p" by simp
    with False show False by simp
  qed
  have "take (length p) (t @ c # y) \<noteq> p"
  proof
    assume e: "take (length p) (t @ c # y) = p"
    from False have "length t < length p" by simp
    then have "take (length p) (t @ c # y) ! length t = c"
      by (simp add: nth_append)
    with e have "p ! length t = c" by simp
    with \<open>length t < length p\<close> c show False by (metis nth_mem)
  qed
  with a show ?thesis by (simp add: expect_def)
qed

lemma expect_rest_subset: "expect p s = Some r \<Longrightarrow> set r \<subseteq> set s"
  by (auto simp: expect_def split: if_splits dest: in_set_dropD)

lemma optional_char_local:
  "c \<noteq> x \<Longrightarrow> optional_char x (t @ c # y) = optional_char x t @ c # y"
  by (cases t) (auto simp: optional_char_def)

lemma optional_char_subset: "set (optional_char x s) \<subseteq> set s"
  by (cases s) (auto simp: optional_char_def)

lemma expect_delim:
  "c \<notin> set t \<Longrightarrow> expect [c] (t @ c # rest) = (if t = [] then Some rest else None)"
  by (cases t) (auto simp: expect_def)

lemma expect_slash_gt:
  "62 \<notin> set t \<Longrightarrow> expect [47, 62] (t @ 62 # rest) = (if t = [47] then Some rest else None)"
proof (cases t)
  case Nil
  then show ?thesis by (simp add: expect_def)
next
  case (Cons a t')
  assume n: "62 \<notin> set t"
  show ?thesis
  proof (cases t')
    case Nil
    with Cons show ?thesis by (auto simp: expect_def)
  next
    case (Cons b t'')
    with \<open>t = a # t'\<close> n show ?thesis by (auto simp: expect_def)
  qed
qed

lemma not_isspace_gt: "\<not> isspace 62"
  by (simp add: isspace_def)

lemma first_lb_tag_upto:
  assumes "62 \<notin> set p"
  shows "\<exists>ok. \<forall>rest. first_lb_tag (p @ 62 # rest) = (if ok then Some rest else None)"
proof (cases "expect (ascii ''<lb'') p")
  case None
  then have "\<forall>rest. first_lb_tag (p @ 62 # rest) = None"
    by (simp add: first_lb_tag_def expect_local ascii_def)
  then show ?thesis by (intro exI [of _ False]) simp
next
  case (Some r1)
  let ?t = "dropWhile isspace (optional_char 47 (dropWhile isspace r1))"
  have "set ?t \<subseteq> set p"
    using expect_rest_subset [OF Some] optional_char_subset [of 47 "dropWhile isspace r1"]
    by (meson set_dropWhileD subsetD subsetI)
  with assms have n: "62 \<notin> set ?t" by auto
  have "\<forall>rest. first_lb_tag (p @ 62 # rest) = (if ?t = [] then Some rest else None)"
  proof
    fix rest
    have "first_lb_tag (p @ 62 # rest) = expect [62] (?t @ 62 # rest)"
      using Some by (simp add: first_lb_tag_def expect_local ascii_def dropWhile_append3
          not_isspace_gt optional_char_local)
    then show "first_lb_tag (p @ 62 # rest) = (if ?t = [] then Some rest else None)"
      by (simp only: expect_delim [OF n])
  qed
  then show ?thesis by blast
qed

lemma second_lb_tag_upto:
  assumes "62 \<notin> set p"
  shows "\<exists>ok. \<forall>rest. second_lb_tag (p @ 62 # rest) = (if ok then Some rest else None)"
proof (cases "expect (ascii ''<'') p")
  case None
  then have "\<forall>rest. second_lb_tag (p @ 62 # rest) = None"
    by (simp add: second_lb_tag_def expect_local ascii_def)
  then show ?thesis by (intro exI [of _ False]) simp
next
  case (Some r3)
  let ?u = "dropWhile isspace (optional_char 47 r3)"
  have u: "set ?u \<subseteq> set p"
    using expect_rest_subset [OF Some] optional_char_subset [of 47 r3]
    by (meson set_dropWhileD subsetD subsetI)
  show ?thesis
  proof (cases "expect (ascii ''lb'') ?u")
    case None
    then have "\<forall>rest. second_lb_tag (p @ 62 # rest) = None"
      using Some by (simp add: second_lb_tag_def expect_local ascii_def dropWhile_append3
          not_isspace_gt optional_char_local)
    then show ?thesis by (intro exI [of _ False]) simp
  next
    case r4: (Some r4)
    let ?t = "dropWhile isspace r4"
    have "set ?t \<subseteq> set p"
      using expect_rest_subset [OF r4] u by (meson set_dropWhileD subsetD subsetI)
    with assms have n: "62 \<notin> set ?t" by auto
    have "\<forall>rest. second_lb_tag (p @ 62 # rest) = (if ?t = [] then Some rest else None)"
    proof
      fix rest
      have "second_lb_tag (p @ 62 # rest) = expect [62] (?t @ 62 # rest)"
        using Some r4 by (simp add: second_lb_tag_def expect_local ascii_def dropWhile_append3
            not_isspace_gt optional_char_local)
      then show "second_lb_tag (p @ 62 # rest) = (if ?t = [] then Some rest else None)"
        by (simp only: expect_delim [OF n])
    qed
    then show ?thesis by blast
  qed
qed

lemma selfclosed_lb_tag_upto:
  assumes "62 \<notin> set p"
  shows "\<exists>ok. \<forall>rest. selfclosed_lb_tag (p @ 62 # rest) = (if ok then Some rest else None)"
proof (cases "expect (ascii ''<lb'') p")
  case None
  then have "\<forall>rest. selfclosed_lb_tag (p @ 62 # rest) = None"
    by (simp add: selfclosed_lb_tag_def expect_local ascii_def)
  then show ?thesis by (intro exI [of _ False]) simp
next
  case (Some r1)
  let ?t = "dropWhile isspace r1"
  have "set ?t \<subseteq> set p"
    using expect_rest_subset [OF Some] by (meson set_dropWhileD subsetD subsetI)
  with assms have n: "62 \<notin> set ?t" by auto
  have "\<forall>rest. selfclosed_lb_tag (p @ 62 # rest) = (if ?t = [47] then Some rest else None)"
  proof
    fix rest
    have "selfclosed_lb_tag (p @ 62 # rest) = expect [47, 62] (?t @ 62 # rest)"
      using Some by (simp add: selfclosed_lb_tag_def expect_local ascii_def dropWhile_append3
          not_isspace_gt)
    then show "selfclosed_lb_tag (p @ 62 # rest) = (if ?t = [47] then Some rest else None)"
      by (simp only: expect_slash_gt [OF n])
  qed
  then show ?thesis by blast
qed

lemma tags_closed_in_tag:
  "tags_closed True s \<Longrightarrow>
     \<exists>p q. s = p @ 62 # q \<and> 60 \<notin> set p \<and> 62 \<notin> set p \<and> tags_closed False q"
proof (induction s)
  case Nil
  then show ?case by simp
next
  case (Cons c s)
  show ?case
  proof (cases "c = 62")
    case True
    with Cons.prems have "tags_closed False s" by simp
    with True have "c # s = [] @ 62 # s \<and> 60 \<notin> set [] \<and> 62 \<notin> set [] \<and> tags_closed False s"
      by simp
    then show ?thesis by blast
  next
    case False
    with Cons.prems have c: "c \<noteq> 60" and t: "tags_closed True s" by simp_all
    from Cons.IH [OF t] obtain p q where
      "s = p @ 62 # q" "60 \<notin> set p" "62 \<notin> set p" "tags_closed False q" by blast
    with False c have "c # s = (c # p) @ 62 # q \<and> 60 \<notin> set (c # p) \<and> 62 \<notin> set (c # p) \<and>
        tags_closed False q" by simp
    then show ?thesis by blast
  qed
qed

lemma tags_closed_at_lt: "tags_closed st (v @ 60 # u) \<Longrightarrow> tags_closed True u"
  by (induction v arbitrary: st) (auto split: if_splits)

lemma tags_closed_skip_tag:
  "60 \<notin> set p \<Longrightarrow> 62 \<notin> set p \<Longrightarrow> tags_closed True (p @ 62 # z) = tags_closed False z"
  by (induction p) auto

lemma re_sub_flag:
  assumes "\<And>b s. m b s = m False s"
  shows "re_sub_from m r b k s = re_sub_from m r False k s"
proof (cases s)
  case Nil
  then show ?thesis by simp
next
  case (Cons c s')
  with assms [of b "c # s'"] show ?thesis by simp
qed

lemma re_sub_skip:
  "0 < k \<Longrightarrow> re_sub_from m r b k s = re_sub_from m r False 0 (drop k s)"
proof (induction s arbitrary: k b)
  case Nil
  show ?case by simp
next
  case (Cons c s)
  show ?case
  proof (cases "k = 1")
    case True
    then show ?thesis by simp
  next
    case False
    with Cons.prems have "0 < k - 1" by simp
    from Cons.IH [OF this] Cons.prems show ?thesis by (simp add: drop_Cons')
  qed
qed

lemma re_sub_match:
  assumes "m b (c # s) = Some (g, n)" "0 < n"
  shows "re_sub_from m r b 0 (c # s) = r @ re_sub_from m r False 0 (drop n (c # s))"
proof (cases "n = 1")
  case True
  with assms show ?thesis by simp
next
  case False
  with assms(2) have "0 < n - 1" by simp
  from re_sub_skip [OF this, of m r False s] assms show ?thesis by (simp add: drop_Cons')
qed

lemma match_lb_pair_first: "c \<noteq> 60 \<Longrightarrow> match_lb_pair b (c # s) = None"
  by (simp add: match_lb_pair_def first_lb_tag_def expect_def ascii_def)

lemma match_lb_selfclosed_first: "c \<noteq> 60 \<Longrightarrow> match_lb_selfclosed b (c # s) = None"
  by (simp add: match_lb_selfclosed_def selfclosed_lb_tag_def expect_def ascii_def)

lemma second_lb_tag_first: "c \<noteq> 60 \<Longrightarrow> second_lb_tag (c # s) = None"
  by (simp add: second_lb_tag_def expect_def ascii_def)

text \<open>
  On a tag of serialized markup each line-break pattern is decided by the tags it spans: the
  result does not depend on the text behind them, and a match ends on the \<open>>\<close> of a tag.
\<close>

lemma lb_selfclosed_result:
  assumes "tags_closed True u"
  shows "\<exists>res. (\<forall>b y. match_lb_selfclosed b (60 # u @ y) = res) \<and>
     (res = None \<or> (\<exists>w q. 60 # u = w @ 62 # q \<and> tags_closed False q \<and>
        res = Some ([], length w + 1)))"
proof -
  from tags_closed_in_tag [OF assms] obtain p q where
    u: "u = p @ 62 # q" and p: "60 \<notin> set p" "62 \<notin> set p" and q: "tags_closed False q" by blast
  from p(2) have "62 \<notin> set (60 # p)" by simp
  from selfclosed_lb_tag_upto [OF this] obtain ok where
    ok: "\<And>rest. selfclosed_lb_tag ((60 # p) @ 62 # rest) = (if ok then Some rest else None)"
    by blast
  have m: "\<And>b y. match_lb_selfclosed b (60 # u @ y) =
      (if ok then Some ([], length (60 # p) + 1) else None)"
    using ok [of "q @ y" for y] by (simp add: match_lb_selfclosed_def u)
  show ?thesis
  proof (cases ok)
    case True
    have "60 # u = (60 # p) @ 62 # q" by (simp add: u)
    with m True q show ?thesis by (metis (full_types))
  next
    case False
    with m show ?thesis by simp
  qed
qed

lemma lb_pair_result:
  assumes "tags_closed True u" "last u \<noteq> 62"
  shows "\<exists>res. (\<forall>b y. match_lb_pair b (60 # u @ y) = res) \<and>
     (res = None \<or> (\<exists>w q. 60 # u = w @ 62 # q \<and> tags_closed False q \<and>
        res = Some ([], length w + 1)))"
proof -
  from tags_closed_in_tag [OF assms(1)] obtain p q where
    u: "u = p @ 62 # q" and p: "60 \<notin> set p" "62 \<notin> set p" and q: "tags_closed False q" by blast
  from u assms(2) have qne: "q \<noteq> []" by auto
  from p(2) have "62 \<notin> set (60 # p)" by simp
  from first_lb_tag_upto [OF this] obtain ok where
    ok: "\<And>rest. first_lb_tag ((60 # p) @ 62 # rest) = (if ok then Some rest else None)"
    by blast
  have m: "\<And>b y. match_lb_pair b (60 # u @ y) =
      (if ok then Option.bind (second_lb_tag (q @ y))
                    (\<lambda>r5. Some ([], length (60 # u @ y) - length r5)) else None)"
    using ok [of "q @ y" for y] by (simp add: match_lb_pair_def u)
  show ?thesis
  proof (cases "ok \<and> hd q = 60")
    case False
    have "\<And>b y. match_lb_pair b (60 # u @ y) = None"
    proof (cases ok)
      case True
      with False have h: "hd q \<noteq> 60" by simp
      obtain c q' where "q = c # q'" using qne by (cases q) auto
      with h have "\<And>y. second_lb_tag (q @ y) = None" by (simp add: second_lb_tag_first)
      then show "\<And>b y. match_lb_pair b (60 # u @ y) = None" by (simp add: m)
    next
      case False
      then show "\<And>b y. match_lb_pair b (60 # u @ y) = None" by (simp add: m)
    qed
    then show ?thesis by simp
  next
    case True
    then obtain q' where q': "q = 60 # q'" using qne by (cases q) auto
    with q have "tags_closed True q'" by simp
    from tags_closed_in_tag [OF this] obtain p2 q2 where
      q2: "q' = p2 @ 62 # q2" "62 \<notin> set p2" "tags_closed False q2" by blast
    from q2(2) have "62 \<notin> set (60 # p2)" by simp
    from second_lb_tag_upto [OF this] obtain ok2 where
      ok2: "\<And>rest. second_lb_tag ((60 # p2) @ 62 # rest) = (if ok2 then Some rest else None)"
      by blast
    have s: "\<And>y. second_lb_tag (q @ y) = (if ok2 then Some (q2 @ y) else None)"
      using ok2 [of "q2 @ y" for y] by (simp add: q' q2(1))
    have m2: "match_lb_pair b (60 # u @ y) =
        (if ok2 then Some ([], length (60 # p @ 62 # 60 # p2) + 1) else None)" for b y
    proof -
      have "match_lb_pair b (60 # u @ y) = Option.bind (second_lb_tag (q @ y))
          (\<lambda>r5. Some ([], length (60 # u @ y) - length r5))"
        using True m [of b y] by simp
      also have "\<dots> = (if ok2 then Some ([], length (60 # u @ y) - length (q2 @ y)) else None)"
        by (simp add: s)
      also have "length (60 # u @ y) - length (q2 @ y) = length (60 # p @ 62 # 60 # p2) + 1"
        by (simp add: u q' q2(1))
      finally show ?thesis .
    qed
    show ?thesis
    proof (cases ok2)
      case ok2: True
      have "60 # u = (60 # p @ 62 # 60 # p2) @ 62 # q2" by (simp add: u q' q2(1))
      with m2 ok2 q2(3) show ?thesis by (metis (full_types))
    next
      case False
      with m2 show ?thesis by simp
    qed
  qed
qed

text \<open>
  Scanning a text of which every non-empty suffix is decided: the scan of the text followed
  by anything is the scan of the text, followed by the scan of what follows.
\<close>

lemma scan_decided:
  "(\<forall>v u. s1 = v @ u \<longrightarrow> u \<noteq> [] \<longrightarrow>
       (\<forall>y. m False (u @ y) = m False u) \<and>
       (\<forall>g n. m False u = Some (g, n) \<longrightarrow> 0 < n \<and> n \<le> length u)) \<Longrightarrow>
   k \<le> length s1 \<Longrightarrow>
   re_sub_from m r False k (s1 @ x) = re_sub_from m r False k s1 @ re_sub_from m r False 0 x"
proof (induction s1 arbitrary: k)
  case Nil
  then show ?case by simp
next
  case (Cons a s)
  have suf: "\<forall>v u. s = v @ u \<longrightarrow> u \<noteq> [] \<longrightarrow>
       (\<forall>y. m False (u @ y) = m False u) \<and>
       (\<forall>g n. m False u = Some (g, n) \<longrightarrow> 0 < n \<and> n \<le> length u)"
  proof (intro allI impI)
    fix v u assume "s = v @ u" "u \<noteq> []"
    then have "a # s = (a # v) @ u" by simp
    with Cons.prems(1) \<open>u \<noteq> []\<close> show "(\<forall>y. m False (u @ y) = m False u) \<and>
       (\<forall>g n. m False u = Some (g, n) \<longrightarrow> 0 < n \<and> n \<le> length u)" by blast
  qed
  have "a # s = [] @ (a # s)" by simp
  with Cons.prems(1) have here: "\<forall>y. m False ((a # s) @ y) = m False (a # s)"
    "\<forall>g n. m False (a # s) = Some (g, n) \<longrightarrow> 0 < n \<and> n \<le> length (a # s)" by blast+
  show ?case
  proof (cases "0 < k")
    case True
    with Cons.prems(2) have "k - 1 \<le> length s" by simp
    from Cons.IH [OF suf this] True show ?thesis by simp
  next
    case k0: False
    have e: "m False (a # s @ x) = m False (a # s)" using here(1) by simp
    show ?thesis
    proof (cases "m False (a # s)")
      case None
      with k0 e Cons.IH [OF suf, of 0] show ?thesis by simp
    next
      case (Some gn)
      obtain g n where gn: "gn = (g, n)" by (cases gn)
      from here(2) Some gn have "n - 1 \<le> length s" by auto
      from Cons.IH [OF suf this] k0 e Some gn show ?thesis by simp
    qed
  qed
qed

lemma ends_in_text_decided:
  assumes res: "\<And>u. tags_closed True u \<Longrightarrow> last u \<noteq> 62 \<Longrightarrow>
      \<exists>res. (\<forall>b y. m b (60 # u @ y) = res) \<and>
        (res = None \<or> (\<exists>w q. 60 # u = w @ 62 # q \<and> tags_closed False q \<and>
           res = Some ([], length w + 1)))"
    and first: "\<And>b c s. c \<noteq> 60 \<Longrightarrow> m b (c # s) = None"
    and e: "ends_in_text s1"
  shows "\<forall>v u. s1 = v @ u \<longrightarrow> u \<noteq> [] \<longrightarrow>
       (\<forall>y. m False (u @ y) = m False u) \<and>
       (\<forall>g n. m False u = Some (g, n) \<longrightarrow> 0 < n \<and> n \<le> length u)"
proof (intro allI impI)
  fix v u assume s1: "s1 = v @ u" and ne: "u \<noteq> []"
  then obtain c u' where u: "u = c # u'" by (cases u) auto
  show "(\<forall>y. m False (u @ y) = m False u) \<and>
       (\<forall>g n. m False u = Some (g, n) \<longrightarrow> 0 < n \<and> n \<le> length u)"
  proof (cases "c = 60")
    case False
    then show ?thesis by (simp add: u first)
  next
    case True
    from e s1 u True have t: "tags_closed True u'"
      using tags_closed_at_lt [of False v u'] by (simp add: ends_in_text_def)
    then have "u' \<noteq> []" by auto
    with e s1 u have l: "last u' \<noteq> 62" by (auto simp: ends_in_text_def)
    from res [OF t l] obtain res where
      r: "\<And>b y. m b (60 # u' @ y) = res"
        "res = None \<or> (\<exists>w q. 60 # u' = w @ 62 # q \<and> tags_closed False q \<and>
           res = Some ([], length w + 1))" by blast
    from r(1) [of False "[]"] have r0: "m False (60 # u') = res" by simp
    have a: "\<forall>y. m False (u @ y) = m False u" using r(1) r0 by (simp add: u True)
    have b: "\<forall>g n. m False u = Some (g, n) \<longrightarrow> 0 < n \<and> n \<le> length u"
    proof (intro allI impI)
      fix g n assume "m False u = Some (g, n)"
      with r0 r(2) u True obtain w q where "60 # u' = w @ 62 # q" "n = length w + 1" by auto
      then have "length (60 # u') = length w + 1 + length q" "n = length w + 1" by simp_all
      then show "0 < n \<and> n \<le> length u" by (simp add: u)
    qed
    from a b show ?thesis by simp
  qed
qed

lemma re_sub_prefix_no_lt:
  "\<forall>c\<in>set w. c \<noteq> 60 \<Longrightarrow>
   re_sub_from match_lb_pair [] False 0 (w @ x) = w @ re_sub_from match_lb_pair [] False 0 x"
  by (induction w) (simp_all add: match_lb_pair_first)

text \<open>The first pass leaves serialized markup that ends in text as such, with its last character.\<close>

lemma lb_pair_pass_keeps_text:
  "tags_closed False s \<Longrightarrow> s \<noteq> [] \<Longrightarrow> last s \<noteq> 62 \<Longrightarrow>
   tags_closed False (re_sub_from match_lb_pair [] False 0 s) \<and>
   re_sub_from match_lb_pair [] False 0 s \<noteq> [] \<and>
   last (re_sub_from match_lb_pair [] False 0 s) = last s"
proof (induction "length s" arbitrary: s rule: less_induct)
  case less
  let ?R = "re_sub_from match_lb_pair [] False 0"
  from less.prems(2) obtain c s' where s: "s = c # s'" by (cases s) auto
  show ?case
  proof (cases "c = 60")
    case False
    then have r: "?R s = c # ?R s'" by (simp add: s match_lb_pair_first)
    from False less.prems(1) have t: "tags_closed False s'" by (simp add: s)
    show ?thesis
    proof (cases "s' = []")
      case True
      with r False s show ?thesis by simp
    next
      case ne: False
      with less.prems(3) have "last s' \<noteq> 62" by (simp add: s)
      from less.hyps [OF _ t ne this] have
        "tags_closed False (?R s')" "?R s' \<noteq> []" "last (?R s') = last s'" by (simp_all add: s)
      with r False ne show ?thesis by (simp add: s)
    qed
  next
    case True
    with less.prems(1) have t: "tags_closed True s'" by (simp add: s)
    then have ne: "s' \<noteq> []" by auto
    with less.prems(3) have l: "last s' \<noteq> 62" by (simp add: s)
    from lb_pair_result [OF t l] obtain res where
      res: "\<And>b y. match_lb_pair b (60 # s' @ y) = res"
        "res = None \<or> (\<exists>w q. 60 # s' = w @ 62 # q \<and> tags_closed False q \<and>
           res = Some ([], length w + 1))" by blast
    from res(1) [of False "[]"] have m: "match_lb_pair False (60 # s') = res" by simp
    show ?thesis
    proof (cases res)
      case None
      from tags_closed_in_tag [OF t] obtain p q where
        pq: "s' = p @ 62 # q" "60 \<notin> set p" "62 \<notin> set p" "tags_closed False q" by blast
      from pq(1) l have qne: "q \<noteq> []" by auto
      with pq(1) l have lq: "last q \<noteq> 62" "last s' = last q" by simp_all
      have "length q < length s" by (simp add: s pq(1))
      from less.hyps [OF this pq(4) qne lq(1)] have ih:
        "tags_closed False (?R q)" "?R q \<noteq> []" "last (?R q) = last q" by simp_all
      have "\<forall>c\<in>set (p @ [62]). c \<noteq> 60" using pq(2) by auto
      from re_sub_prefix_no_lt [OF this, of q] have "?R s' = p @ 62 # ?R q" by (simp add: pq(1))
      with m None True have r: "?R s = 60 # p @ 62 # ?R q" by (simp add: s)
      have "tags_closed False (60 # p @ 62 # ?R q) = tags_closed False (?R q)"
        using tags_closed_skip_tag [OF pq(2,3)] by simp
      with ih r lq(2) ne show ?thesis by (simp add: s)
    next
      case (Some gn)
      with res(2) obtain w q where
        wq: "60 # s' = w @ 62 # q" "tags_closed False q" "res = Some ([], length w + 1)" by auto
      have d: "drop (length w + 1) (60 # s') = q" by (simp add: wq(1))
      from re_sub_match [of match_lb_pair False 60 s' "[]" "length w + 1" "[]"] m wq(3) d True
      have r: "?R s = ?R q" by (simp add: s)
      have qne: "q \<noteq> []"
      proof
        assume "q = []"
        with wq(1) have "last (60 # s') = 62" by simp
        with ne l show False by simp
      qed
      from wq(1) qne have lq: "last (60 # s') = last q" by simp
      with ne l have lq': "last q \<noteq> 62" "last s = last q" by (simp_all add: s)
      from wq(1) have "length (60 # s') = length w + 1 + length q" by simp
      then have "length q < length s" by (simp add: s)
      from less.hyps [OF this wq(2) qne lq'(1)] r lq'(2) show ?thesis by simp
    qed
  qed
qed

lemma lb_pair_pass_ends_in_text:
  "ends_in_text s \<Longrightarrow> ends_in_text (re_sub_from match_lb_pair [] False 0 s)"
proof (cases "s = []")
  case True
  then show ?thesis by (simp add: ends_in_text_def)
next
  case False
  assume "ends_in_text s"
  with False lb_pair_pass_keeps_text [of s] show ?thesis by (simp add: ends_in_text_def)
qed

lemma lb_pair_removed:
  "re_sub_from match_lb_pair [] False 0 (ascii ''<lb></lb>'' @ s2) =
   re_sub_from match_lb_pair [] False 0 s2"
  by (simp add: match_lb_pair_def first_lb_tag_def second_lb_tag_def expect_def
      optional_char_def isspace_def ascii_def)

lemma lb_selfclosed_kept:
  "s2 = [] \<or> hd s2 \<noteq> 60 \<Longrightarrow>
   re_sub_from match_lb_pair [] False 0 (ascii ''<lb/>'' @ s2) =
   ascii ''<lb/>'' @ re_sub_from match_lb_pair [] False 0 s2"
  by (cases s2) (auto simp: match_lb_pair_def first_lb_tag_def second_lb_tag_def expect_def
      optional_char_def isspace_def ascii_def)

lemma lb_selfclosed_removed:
  "re_sub_from match_lb_selfclosed [] False 0 (ascii ''<lb/>'' @ q) =
   re_sub_from match_lb_selfclosed [] False 0 q"
  by (simp add: match_lb_selfclosed_def selfclosed_lb_tag_def expect_def isspace_def ascii_def)

lemma scan_lb_pair:
  assumes e: "ends_in_text s1"
  shows "re_sub_from match_lb_pair [] False 0 (s1 @ x) =
    re_sub_from match_lb_pair [] False 0 s1 @ re_sub_from match_lb_pair [] False 0 x"
proof -
  have d: "\<forall>v u. s1 = v @ u \<longrightarrow> u \<noteq> [] \<longrightarrow>
       (\<forall>y. match_lb_pair False (u @ y) = match_lb_pair False u) \<and>
       (\<forall>g n. match_lb_pair False u = Some (g, n) \<longrightarrow> 0 < n \<and> n \<le> length u)"
  proof (rule ends_in_text_decided [OF _ _ e])
    fix u :: ustr assume "tags_closed True u" "last u \<noteq> 62"
    then show "\<exists>res. (\<forall>b y. match_lb_pair b (60 # u @ y) = res) \<and>
        (res = None \<or> (\<exists>w q. 60 # u = w @ 62 # q \<and> tags_closed False q \<and>
           res = Some ([], length w + 1)))" by (rule lb_pair_result)
  next
    fix b c s assume "c \<noteq> (60::nat)"
    then show "match_lb_pair b (c # s) = None" by (rule match_lb_pair_first)
  qed
  from scan_decided [where m = match_lb_pair and ?s1.0 = s1 and k = 0 and r = "[]" and x = x] d
  show ?thesis by simp
qed

lemma scan_lb_selfclosed:
  assumes e: "ends_in_text s1"
  shows "re_sub_from match_lb_selfclosed [] False 0 (s1 @ x) =
    re_sub_from match_lb_selfclosed [] False 0 s1 @ re_sub_from match_lb_selfclosed [] False 0 x"
proof -
  have d: "\<forall>v u. s1 = v @ u \<longrightarrow> u \<noteq> [] \<longrightarrow>
       (\<forall>y. match_lb_selfclosed False (u @ y) = match_lb_selfclosed False u) \<and>
       (\<forall>g n. match_lb_selfclosed False u = Some (g, n) \<longrightarrow> 0 < n \<and> n \<le> length u)"
  proof (rule ends_in_text_decided [OF _ _ e])
    fix u :: ustr assume "tags_closed True u" "last u \<noteq> 62"
    then show "\<exists>res. (\<forall>b y. match_lb_selfclosed b (60 # u @ y) = res) \<and>
        (res = None \<or> (\<exists>w q. 60 # u = w @ 62 # q \<and> tags_closed False q \<and>
           res = Some ([], length w + 1)))" by (intro lb_selfclosed_result)
  next
    fix b c s assume "c \<noteq> (60::nat)"
    then show "match_lb_selfclosed b (c # s) = None" by (rule match_lb_selfclosed_first)
  qed
  from scan_decided [where m = match_lb_selfclosed and ?s1.0 = s1 and k = 0 and r = "[]" and x = x] d
  show ?thesis by simp
qed

lemma re_sub_lb_pair: "re_sub match_lb_pair r s = re_sub_from match_lb_pair r False 0 s"
  unfolding re_sub_def by (rule re_sub_flag) (simp add: match_lb_pair_def)

lemma re_sub_lb_selfclosed:
  "re_sub match_lb_selfclosed r s = re_sub_from match_lb_selfclosed r False 0 s"
  unfolding re_sub_def by (rule re_sub_flag) (simp add: match_lb_selfclosed_def)

text \<open>
  Claim C5, as amended. In the TEI dialect \<open>clean_text\<close> removes a line-break marker
  (\<open><lb></lb>\<close> or \<open><lb/>\<close>) without putting anything in its place, wherever the marker
  stands in serialized markup behind a character other than \<open>>\<close> (and, for \<open><lb/>\<close>, before
  a character other than \<open><\<close>), as it does where it splits a word: the normalized output is
  that of the same text with the two halves adjacent. In the XDXF dialect \<open>get_text\<close> does
  not rejoin the halves: for a \<open>br\<close> element between them it puts one space at the break
  point.
\<close>

theorem line_break_handling:
  "(ends_in_text s1 \<longrightarrow>
      clean_text soup_get_text (s1 @ ascii ''<lb></lb>'' @ s2) =
        clean_text soup_get_text (s1 @ s2) \<and>
      (s2 = [] \<or> hd s2 \<noteq> 60 \<longrightarrow>
        clean_text soup_get_text (s1 @ ascii ''<lb/>'' @ s2) =
          clean_text soup_get_text (s1 @ s2))) \<and>
   get_text (Element tg attrs (Some w1) [Element (ascii ''br'') attrs' None [] (Some w2)] tail) =
     strip (w1 @ [32] @ w2)"
proof (intro conjI impI)
  assume e: "ends_in_text s1"
  have "re_sub match_lb_pair [] (s1 @ ascii ''<lb></lb>'' @ s2) =
      re_sub match_lb_pair [] (s1 @ s2)"
    by (simp only: re_sub_lb_pair scan_lb_pair [OF e] lb_pair_removed)
  then show "clean_text soup_get_text (s1 @ ascii ''<lb></lb>'' @ s2) =
      clean_text soup_get_text (s1 @ s2)"
    by (simp add: clean_text_def)
next
  assume e: "ends_in_text s1" and s: "s2 = [] \<or> hd s2 \<noteq> 60"
  let ?P = "re_sub_from match_lb_pair [] False 0 s1"
  let ?Q = "re_sub_from match_lb_pair [] False 0 s2"
  have 1: "re_sub match_lb_pair [] (s1 @ ascii ''<lb/>'' @ s2) = ?P @ ascii ''<lb/>'' @ ?Q"
    by (simp only: re_sub_lb_pair scan_lb_pair [OF e] lb_selfclosed_kept [OF s])
  have 2: "re_sub match_lb_pair [] (s1 @ s2) = ?P @ ?Q"
    by (simp only: re_sub_lb_pair scan_lb_pair [OF e])
  have p: "ends_in_text ?P" using e by (rule lb_pair_pass_ends_in_text)
  have "re_sub match_lb_selfclosed [] (?P @ ascii ''<lb/>'' @ ?Q) =
      re_sub match_lb_selfclosed [] (?P @ ?Q)"
    by (simp only: re_sub_lb_selfclosed scan_lb_selfclosed [OF p] lb_selfclosed_removed)
  with 1 2 show "clean_text soup_get_text (s1 @ ascii ''<lb/>'' @ s2) =
      clean_text soup_get_text (s1 @ s2)"
    by (simp add: clean_text_def)
next
  show "get_text (Element tg attrs (Some w1) [Element (ascii ''br'') attrs' None [] (Some w2)] tail) =
     strip (w1 @ [32] @ w2)"
    by (simp add: part_of_def strip_def lstrip_def rstrip_def)
qed

theorem line_break_handling_witness:
  "clean_text sample_soup_get_text (ascii ''<p>wel'' @ ascii ''<lb></lb>'' @ ascii ''come</p>'')
     = ascii ''welcome'' \<and>
   clean_text sample_soup_get_text
     ((ascii ''<p>'' @ [3333, 3349]) @ ascii ''<lb/>'' @ ([3383] @ ascii ''</p>''))
     = [3333, 3349, 3383] \<and>
   get_text (Element (ascii ''k'') [] (Some [3333, 3349])
      [Element (ascii ''br'') [] None [] (Some [3383])] None) = [3333, 3349, 32, 3383]"
proof -
  have e1: "ends_in_text (ascii ''<p>wel'')" by (simp add: ends_in_text_def ascii_def)
  have e2: "ends_in_text (ascii ''<p>'' @ [3333, 3349])" by (simp add: ends_in_text_def ascii_def)
  have s2: "[3383] @ ascii ''</p>'' = [] \<or> hd ([3383] @ ascii ''</p>'') \<noteq> 60" by simp
  have v1: "clean_text sample_soup_get_text (ascii ''<p>wel'' @ ascii ''come</p>'') = ascii ''welcome''"
    by (simp add: clean_defs scan_defs py_str_defs Let_def)
  have v2: "clean_text sample_soup_get_text ((ascii ''<p>'' @ [3333, 3349]) @ ([3383] @ ascii ''</p>''))
      = [3333, 3349, 3383]"
    by (simp add: clean_defs scan_defs py_str_defs Let_def)
  from line_break_handling [of "ascii ''<p>wel''" sample_soup_get_text "ascii ''come</p>''"] e1 v1
  have a: "clean_text sample_soup_get_text (ascii ''<p>wel'' @ ascii ''<lb></lb>'' @ ascii ''come</p>'')
     = ascii ''welcome''" by simp
  from line_break_handling [of "ascii ''<p>'' @ [3333, 3349]" sample_soup_get_text
      "[3383] @ ascii ''</p>''" "ascii ''k''" "[]" "[3333, 3349]" "[]" "[3383]" None] e2 s2 v2
  have b: "clean_text sample_soup_get_text
     ((ascii ''<p>'' @ [3333, 3349]) @ ascii ''<lb/>'' @ ([3383] @ ascii ''</p>''))
     = [3333, 3349, 3383]"
    and c: "get_text (Element (ascii ''k'') [] (Some [3333, 3349])
      [Element (ascii ''br'') [] None [] (Some [3383])] None) = [3333, 3349, 32, 3383]"
    by (simp_all add: py_str_defs)
  from a b c show ?thesis by simp
qed

theorem get_text_br_counterexample:
  "get_text (Element (ascii ''k'') [] (Some (ascii ''ab''))
      [Element (ascii ''br'') [] None [] (Some (ascii ''cd''))] None) = ascii ''ab cd''"
  by (simp add: part_of_def ascii_def strip_def lstrip_def rstrip_def isspace_def)

lemma re_sub_no_match:
  assumes "\<And>b c s. \<not> F c \<Longrightarrow> m b (c # s) = None"
  shows "\<forall>c\<in>set s. \<not> F c \<Longrightarrow> re_sub_from m r b 0 s = s"
  by (induction s arbitrary: b) (simp_all add: assms)

lemma match_whitespace_cons:
  "match_whitespace b (c # s) =
     (if isspace c then Some ([], Suc (length (takeWhile isspace s))) else None)"
proof -
  have "length s = length (takeWhile isspace s) + length (dropWhile isspace s)"
    by (metis length_append takeWhile_dropWhile_id)
  then show ?thesis by (simp add: match_whitespace_def some_space_def)
qed

lemma collapse_cons:
  "re_sub_from match_whitespace [32] b 0 (c # s) =
     (if isspace c then 32 # re_sub_from match_whitespace [32] False 0 (dropWhile isspace s)
      else c # re_sub_from match_whitespace [32] False 0 s)"
proof (cases "takeWhile isspace s = []")
  case True
  then have "dropWhile isspace s = s" by (cases s) (auto split: if_splits)
  with True show ?thesis by (simp add: match_whitespace_cons)
next
  case False
  then have "0 < length (takeWhile isspace s)" by simp
  from re_sub_skip [OF this] show ?thesis
    by (simp add: match_whitespace_cons dropWhile_eq_drop)
qed

lemma isspace_32: "isspace 32"
  by (simp add: isspace_def)

lemma ws_normal_nonspace: "\<not> isspace c \<Longrightarrow> ws_normal (c # s) = ws_normal s"
  by (cases s) simp_all

lemma ws_normal_space:
  "ws_normal (32 # s) = ((s = [] \<or> \<not> isspace (hd s)) \<and> ws_normal s)"
  by (cases s) (simp_all add: isspace_def)

lemma ws_normal_collapse: "ws_normal (re_sub_from match_whitespace [32] b 0 s)"
proof (induction "length s" arbitrary: s b rule: less_induct)
  case less
  show ?case
  proof (cases s)
    case Nil
    then show ?thesis by simp
  next
    case (Cons c t)
    show ?thesis
    proof (cases "isspace c")
      case True
      let ?d = "dropWhile isspace t"
      have "length ?d < length s" using Cons by (simp add: le_imp_less_Suc length_dropWhile_le)
      from less [OF this] have n: "ws_normal (re_sub_from match_whitespace [32] False 0 ?d)" .
      have "re_sub_from match_whitespace [32] False 0 ?d = [] \<or>
          \<not> isspace (hd (re_sub_from match_whitespace [32] False 0 ?d))"
      proof (cases ?d)
        case Nil
        have "re_sub_from match_whitespace [32] False 0 [] = []" by simp
        with Nil show ?thesis by (simp only: simp_thms)
      next
        case (Cons d u)
        then have "\<not> isspace d" using hd_dropWhile [of isspace t] by auto
        then have "re_sub_from match_whitespace [32] False 0 (d # u) =
            d # re_sub_from match_whitespace [32] False 0 u"
          by (simp only: collapse_cons if_False)
        with Cons \<open>\<not> isspace d\<close> show ?thesis by (simp only: list.sel simp_thms)
      qed
      moreover have "re_sub_from match_whitespace [32] b 0 (c # t) =
          32 # re_sub_from match_whitespace [32] False 0 ?d"
        using True by (simp only: collapse_cons if_True)
      ultimately show ?thesis using n Cons by (simp only: ws_normal_space simp_thms)
    next
      case False
      have "length t < length s" using Cons by simp
      from less [OF this] have "ws_normal (re_sub_from match_whitespace [32] False 0 t)" .
      moreover have "re_sub_from match_whitespace [32] b 0 (c # t) =
          c # re_sub_from match_whitespace [32] False 0 t"
        using False by (simp only: collapse_cons if_False)
      ultimately show ?thesis using False Cons by (metis ws_normal_nonspace)
    qed
  qed
qed

lemma collapse_normal: "ws_normal s \<Longrightarrow> re_sub_from match_whitespace [32] b 0 s = s"
proof (induction s arbitrary: b rule: ws_normal.induct)
  case 1
  show ?case by simp
next
  case (2 c)
  have "re_sub_from match_whitespace [32] b 0 [c] = (if isspace c then [32] else [c])"
    by (simp only: collapse_cons dropWhile.simps re_sub_from.simps(1))
  with 2 show ?case by (simp split: if_splits)
next
  case (3 c d s)
  from 3(2) have n: "ws_normal (d # s)" and c: "isspace c \<longrightarrow> c = 32 \<and> \<not> isspace d"
    by (simp_all split: if_splits)
  from 3(1) [OF n] have ih: "re_sub_from match_whitespace [32] False 0 (d # s) = d # s" .
  show ?case
  proof (cases "isspace c")
    case True
    with c have "c = 32" "dropWhile isspace (d # s) = d # s" by simp_all
    with True ih show ?thesis by (simp only: collapse_cons if_True)
  next
    case False
    with ih show ?thesis by (simp only: collapse_cons if_False)
  qed
qed

lemma ws_normal_tl: "ws_normal (c # s) \<Longrightarrow> ws_normal s"
  by (cases s) (simp_all split: if_splits)

lemma ws_normal_dropWhile: "ws_normal s \<Longrightarrow> ws_normal (dropWhile P s)"
  by (induction s) (auto dest: ws_normal_tl)

lemma ws_normal_prefix: "ws_normal (a @ b) \<Longrightarrow> ws_normal a"
proof (induction a rule: ws_normal.induct)
  case 1
  show ?case by simp
next
  case (2 c)
  then show ?case by (cases b) (simp_all split: if_splits)
next
  case (3 c d s)
  then show ?case by (simp split: if_splits)
qed

lemma rstrip_prefix: "\<exists>r. s = rstrip s @ r"
proof -
  have "rev s = takeWhile isspace (rev s) @ dropWhile isspace (rev s)" by simp
  then have "s = rev (dropWhile isspace (rev s)) @ rev (takeWhile isspace (rev s))"
    by (metis rev_append rev_rev_ident)
  then show ?thesis unfolding rstrip_def by blast
qed

lemma ws_normal_strip: "ws_normal s \<Longrightarrow> ws_normal (strip s)"
proof -
  assume "ws_normal s"
  then have n: "ws_normal (lstrip s)" unfolding lstrip_def by (rule ws_normal_dropWhile)
  obtain r where "lstrip s = rstrip (lstrip s) @ r" using rstrip_prefix by blast
  with n show ?thesis unfolding strip_def by (metis ws_normal_prefix)
qed

text \<open>
  Claim C8, as amended. \<open>clean_text\<close> is idempotent on every input whose normalized
  output holds neither \<open><\<close> nor \<open>&\<close>: for such an input a second pass yields the identical
  string. Of the library step this uses only that it returns unchanged a text that holds
  neither \<open><\<close> nor \<open>&\<close>, has no surrounding whitespace and no whitespace but single
  spaces. (An input such as \<open>&lt;b&gt;x\<close> normalizes to \<open><b>x\<close>, which a second pass turns
  into \<open>x\<close>.)
\<close>

theorem clean_text_idempotent_on_plain_output:
  assumes lib: "\<forall>t. 60 \<notin> set t \<and> 38 \<notin> set t \<and> strip t = t \<and> ws_normal t \<longrightarrow>
      soup_get_text t = t"
    and plain: "60 \<notin> set (clean_text soup_get_text x)" "38 \<notin> set (clean_text soup_get_text x)"
  shows "clean_text soup_get_text (clean_text soup_get_text x) = clean_text soup_get_text x"
proof -
  let ?y = "clean_text soup_get_text x"
  have n: "ws_normal ?y"
    unfolding clean_text_def Let_def re_sub_def by (intro ws_normal_strip ws_normal_collapse)
  have s: "strip ?y = ?y" unfolding clean_text_def Let_def by (rule strip_strip)
  have nl: "\<forall>c\<in>set ?y. \<not> c = 60" using plain(1) by auto
  have 1: "re_sub match_lb_pair [] ?y = ?y"
    unfolding re_sub_def using nl
    by (intro re_sub_no_match [where F = "\<lambda>c. c = 60"]) (simp_all add: match_lb_pair_first)
  have 2: "re_sub match_lb_selfclosed [] ?y = ?y"
    unfolding re_sub_def using nl
    by (intro re_sub_no_match [where F = "\<lambda>c. c = 60"]) (simp_all add: match_lb_selfclosed_first)
  have 3: "soup_get_text ?y = ?y" using lib plain s n by blast
  have 4: "re_sub match_whitespace [32] ?y = ?y"
    unfolding re_sub_def using n by (rule collapse_normal)
  have "clean_text soup_get_text ?y = strip (re_sub match_whitespace [32] (soup_get_text
      (re_sub match_lb_selfclosed [] (re_sub match_lb_pair [] ?y))))"
    by (simp add: clean_text_def Let_def)
  also have "\<dots> = ?y" by (simp only: 1 2 3 4 s)
  finally show ?thesis .
qed

lemma sample_soup_get_text_plain:
  "60 \<notin> set t \<Longrightarrow> 38 \<notin> set t \<Longrightarrow> sample_soup_get_text t = t"
  by (auto simp: sample_soup_get_text_def soup_results_def ascii_def)

theorem clean_text_idempotent_on_plain_output_witness:
  "clean_text sample_soup_get_text (ascii ''<p>wel<lb></lb>come</p>'') = ascii ''welcome'' \<and>
   clean_text sample_soup_get_text (ascii ''welcome'') = ascii ''welcome''"
proof -
  have e: "clean_text sample_soup_get_text (ascii ''<p>wel<lb></lb>come</p>'') = ascii ''welcome''"
    by (simp add: clean_defs scan_defs py_str_defs Let_def)
  have lib: "\<forall>t. 60 \<notin> set t \<and> 38 \<notin> set t \<and> strip t = t \<and> ws_normal t \<longrightarrow>
      sample_soup_get_text t = t"
    using sample_soup_get_text_plain by blast
  have p: "60 \<notin> set (clean_text sample_soup_get_text (ascii ''<p>wel<lb></lb>come</p>''))"
    "38 \<notin> set (clean_text sample_soup_get_text (ascii ''<p>wel<lb></lb>come</p>''))"
    unfolding e by (simp_all add: ascii_def)
  from clean_text_idempotent_on_plain_output [OF lib p] e show ?thesis by simp
qed

theorem clean_text_not_idempotent:
  "clean_text sample_soup_get_text (ascii ''&lt;b&gt;x'') = ascii ''<b>x'' \<and>
   clean_text sample_soup_get_text (ascii ''<b>x'') = ascii ''x''"
  by (simp add: clean_defs scan_defs py_str_defs Let_def)

end
